theory Spec2Isabelle
  imports Main "HOL-Library.AList"
begin

section \<open>JSON documents and the exchange types (internal/models)\<close>

text \<open>
  A JSON document is kept as its tree. The same tree stands for a Go value of type
  \<^verbatim>\<open>any\<close> produced by decoding: \<open>JNull\<close> is the nil interface, \<open>JObj\<close> a
  \<^verbatim>\<open>map[string]any\<close> (an association list; a lookup takes the last binding of a key,
  as the decoder does on a repeated key), \<open>JArr\<close> a \<^verbatim>\<open>[]any\<close>. Numbers keep their
  literal.
\<close>

datatype json =
    JNull
  | JBool bool
  | JNum string
  | JStr string
  | JArr "json list"
  | JObj "(string \<times> json) list"

text \<open>
  \<^verbatim>\<open>type JSONMap map[string]any\<close>: \<open>None\<close> is the nil map, \<open>Some kvs\<close> a map with the
  bindings \<open>kvs\<close>, kept with distinct keys by \<open>AList.update\<close>.
\<close>

type_synonym JSONMap = "(string \<times> json) list option"

datatype error =
    SyntaxError
  | UnmarshalTypeError
  | DBError
  | ErrorString string
  | Wrap string error

record KeyValuePair =
  kv_Key :: string
  kv_Value :: string
  kv_Description :: json
  kv_Type :: string
  kv_Disabled :: bool
  kv_Name :: string

text \<open>A \<^verbatim>\<open>json.RawMessage\<close> is \<open>json option\<close>: \<open>None\<close> is the nil (empty) message.\<close>

record PostmanBody =
  body_Mode :: string
  body_Raw :: string
  body_URLEncoded :: "KeyValuePair list"
  body_FormData :: "KeyValuePair list"
  body_GraphQL :: "json option"
  body_File :: "json option"
  body_Options :: "json option"

record PostmanRequest =
  req_URL :: json
  req_Method :: string
  req_Header :: "KeyValuePair list"
  req_Body :: PostmanBody
  req_Description :: string
  req_Auth :: "json option"

text \<open>
  \<^verbatim>\<open>PostmanItem\<close>. The slices inside an item are lists: the converter only takes their
  length, ranges over them and encodes them under \<^verbatim>\<open>omitempty\<close>, none of which tells a nil
  slice from an empty one. \<^verbatim>\<open>PostmanResponse\<close> and \<^verbatim>\<open>PostmanEvent\<close> values are kept as
  their encodings: the converter never reads a field of theirs.
\<close>

datatype PostmanItem = PostmanItem
  (item_Name: string)
  (item_Description: string)
  (item_Item: "PostmanItem list")
  (item_Request: "PostmanRequest option")
  (item_Response: "json list")
  (item_Event: "json list")
  (item_Variable: "KeyValuePair list")
  (item_Auth: "json option")
  (item_PostmanID: string)

record CollectionInfo =
  info_Name :: string
  info_Description :: string
  info_Schema :: string
  info_PostmanID :: string
  info_ExporterID :: string
  info_CollectionLink :: string

text \<open>
  \<^verbatim>\<open>PostmanCollection\<close>. Its \<^verbatim>\<open>Item\<close> slice has no \<^verbatim>\<open>omitempty\<close> and is encoded on its
  own by the import, so nil (\<open>None\<close>) and empty (\<open>Some []\<close>) are kept apart.
\<close>

record PostmanCollection =
  pc_Info :: CollectionInfo
  pc_Item :: "PostmanItem list option"
  pc_Variable :: "KeyValuePair list"
  pc_Auth :: "json option"
  pc_Event :: "json list"
  pc_Schema :: string

record Collection =
  c_ID :: int
  c_Name :: string
  c_Description :: string
  c_Schema :: string
  c_Variables :: JSONMap
  c_Auth :: JSONMap
  c_Events :: JSONMap
  c_Items :: JSONMap
  c_PostmanID :: string
  c_ExporterID :: string

text \<open>
  \<^verbatim>\<open>Request\<close>. \<^verbatim>\<open>Headers map[string]string\<close> is an association list with distinct keys,
  \<open>None\<close> the nil map. The timestamps are left out: the order they give is the order of
  the table below.
\<close>

record Request =
  r_ID :: int
  r_CollectionID :: int
  r_Name :: string
  r_Description :: string
  r_FolderPath :: string
  r_URL :: JSONMap
  r_Method :: string
  r_Headers :: "(string \<times> string) list option"
  r_Params :: JSONMap
  r_Body :: JSONMap
  r_Auth :: JSONMap
  r_Events :: JSONMap
  r_Responses :: JSONMap
  r_PostmanID :: string

section \<open>encoding/json on these types\<close>

text \<open>
  \<^verbatim>\<open>json.Marshal\<close>, read off the struct tags of internal/models. On the values met here
  (decoded JSON, strings, booleans) it returns no error, so it is a total function and the
  caller's \<^verbatim>\<open>err == nil\<close> branch is the only one.
\<close>

definition omitempty_string :: "string \<Rightarrow> string \<Rightarrow> (string \<times> json) list" where
  "omitempty_string k s = (if s = [] then [] else [(k, JStr s)])"

definition omitempty_raw :: "string \<Rightarrow> json option \<Rightarrow> (string \<times> json) list" where
  "omitempty_raw k r = (case r of None \<Rightarrow> [] | Some j \<Rightarrow> [(k, j)])"

definition omitempty_slice :: "string \<Rightarrow> json list \<Rightarrow> (string \<times> json) list" where
  "omitempty_slice k xs = (if xs = [] then [] else [(k, JArr xs)])"

definition marshal_KeyValuePair :: "KeyValuePair \<Rightarrow> json" where
  "marshal_KeyValuePair kv = JObj (
     [(''key'', JStr (kv_Key kv)), (''value'', JStr (kv_Value kv))]
     @ (if kv_Description kv = JNull then [] else [(''description'', kv_Description kv)])
     @ omitempty_string ''type'' (kv_Type kv)
     @ (if kv_Disabled kv then [(''disabled'', JBool True)] else [])
     @ omitempty_string ''name'' (kv_Name kv))"

definition marshal_PostmanBody :: "PostmanBody \<Rightarrow> json" where
  "marshal_PostmanBody b = JObj (
     omitempty_string ''mode'' (body_Mode b)
     @ omitempty_string ''raw'' (body_Raw b)
     @ omitempty_slice ''urlencoded'' (map marshal_KeyValuePair (body_URLEncoded b))
     @ omitempty_slice ''formdata'' (map marshal_KeyValuePair (body_FormData b))
     @ omitempty_raw ''graphql'' (body_GraphQL b)
     @ omitempty_raw ''file'' (body_File b)
     @ omitempty_raw ''options'' (body_Options b))"

definition zero_PostmanBody :: PostmanBody where
  "zero_PostmanBody = \<lparr>body_Mode = [], body_Raw = [], body_URLEncoded = [], body_FormData = [],
     body_GraphQL = None, body_File = None, body_Options = None\<rparr>"

definition marshal_PostmanRequest :: "PostmanRequest \<Rightarrow> json" where
  "marshal_PostmanRequest r = JObj (
     [(''url'', req_URL r), (''method'', JStr (req_Method r))]
     @ omitempty_slice ''header'' (map marshal_KeyValuePair (req_Header r))
     @ (if req_Body r = zero_PostmanBody then [] else [(''body'', marshal_PostmanBody (req_Body r))])
     @ omitempty_string ''description'' (req_Description r)
     @ omitempty_raw ''auth'' (req_Auth r))"

fun marshal_PostmanItem :: "PostmanItem \<Rightarrow> json" where
  "marshal_PostmanItem (PostmanItem name description items request response event variable auth pid) =
     JObj (
       [(''name'', JStr name)]
       @ omitempty_string ''description'' description
       @ omitempty_slice ''item'' (map marshal_PostmanItem items)
       @ (case request of None \<Rightarrow> [] | Some r \<Rightarrow> [(''request'', marshal_PostmanRequest r)])
       @ omitempty_slice ''response'' response
       @ omitempty_slice ''event'' event
       @ omitempty_slice ''variable'' (map marshal_KeyValuePair variable)
       @ omitempty_raw ''auth'' auth
       @ omitempty_string ''id'' pid)"

text \<open>A slice encoded on its own, or as a field without \<^verbatim>\<open>omitempty\<close>: nil is \<^verbatim>\<open>null\<close>.\<close>

definition marshal_PostmanItems :: "PostmanItem list option \<Rightarrow> json" where
  "marshal_PostmanItems items =
     (case items of None \<Rightarrow> JNull | Some xs \<Rightarrow> JArr (map marshal_PostmanItem xs))"

definition marshal_events :: "json list \<Rightarrow> json" where
  "marshal_events xs = JArr xs"

definition marshal_JSONMap :: "JSONMap \<Rightarrow> json" where
  "marshal_JSONMap m = (case m of None \<Rightarrow> JNull | Some kvs \<Rightarrow> JObj kvs)"

definition marshal_any :: "json \<Rightarrow> json" where
  "marshal_any v = v"

definition marshal_CollectionInfo :: "CollectionInfo \<Rightarrow> json" where
  "marshal_CollectionInfo i = JObj (
     [(''name'', JStr (info_Name i))]
     @ omitempty_string ''description'' (info_Description i)
     @ omitempty_string ''schema'' (info_Schema i)
     @ omitempty_string ''_postman_id'' (info_PostmanID i)
     @ omitempty_string ''_exporter_id'' (info_ExporterID i)
     @ omitempty_string ''_collection_link'' (info_CollectionLink i))"

definition marshal_PostmanCollection :: "PostmanCollection \<Rightarrow> json" where
  "marshal_PostmanCollection p = JObj (
     [(''info'', marshal_CollectionInfo (pc_Info p)),
      (''item'', marshal_PostmanItems (pc_Item p))]
     @ omitempty_slice ''variable'' (map marshal_KeyValuePair (pc_Variable p))
     @ omitempty_raw ''auth'' (pc_Auth p)
     @ omitempty_slice ''event'' (pc_Event p)
     @ omitempty_string ''schema'' (pc_Schema p))"

text \<open>
  \<^verbatim>\<open>json.Unmarshal(bytes, &m)\<close> for \<open>m\<close> a \<^verbatim>\<open>JSONMap\<close>: \<^verbatim>\<open>null\<close> leaves \<open>m\<close> as it was, an
  object is stored key by key into \<open>m\<close> (a fresh map when \<open>m\<close> is nil), anything else is a
  type error that leaves \<open>m\<close> as it was.
\<close>

definition unmarshal_JSONMap :: "json \<Rightarrow> JSONMap \<Rightarrow> error option \<times> JSONMap" where
  "unmarshal_JSONMap j m =
     (case j of
        JNull \<Rightarrow> (None, m)
      | JObj kvs \<Rightarrow>
          (None, Some (fold (\<lambda>(k, v). AList.update k v) kvs (case m of None \<Rightarrow> [] | Some old \<Rightarrow> old)))
      | _ \<Rightarrow> (Some UnmarshalTypeError, m))"

text \<open>
  \<^verbatim>\<open>json.Unmarshal(bytes, &xs)\<close> for \<open>xs\<close> a slice: \<^verbatim>\<open>null\<close> leaves \<open>xs\<close> as it was, an
  array is decoded element by element (by \<open>dec\<close>, the decoder of the element type, which
  returns what it has stored and the first error), anything else is a type error.
\<close>

definition unmarshal_slice ::
  "(json list \<Rightarrow> error option \<times> 'a list) \<Rightarrow> json \<Rightarrow> 'a list option \<Rightarrow> error option \<times> 'a list option" where
  "unmarshal_slice dec j xs =
     (case j of
        JNull \<Rightarrow> (None, xs)
      | JArr es \<Rightarrow> (case dec es of (e, ys) \<Rightarrow> (e, Some ys))
      | _ \<Rightarrow> (Some UnmarshalTypeError, xs))"

text \<open>\<^verbatim>\<open>json.Unmarshal(bytes, &v)\<close> for \<open>v\<close> a nil \<^verbatim>\<open>any\<close>: the decoded tree.\<close>

definition unmarshal_any :: "json \<Rightarrow> json" where
  "unmarshal_any j = j"

section \<open>The collaborators: the library and the storage\<close>

text \<open>
  What the converter takes from outside, as parameters of the model:
  \<^item> \<open>Unmarshal_PostmanCollection\<close>: \<^verbatim>\<open>json.Unmarshal(data, &postmanCollection)\<close> on the
    bytes of an import;
  \<^item> \<open>dec_PostmanItems\<close>, \<open>dec_PostmanEvents\<close>, \<open>dec_PostmanResponses\<close>: the decoders of
    the elements of a JSON array into a slice of that type;
  \<^item> \<open>Unmarshal_PostmanBody\<close>: the body left by \<^verbatim>\<open>json.Unmarshal(bytes, &body)\<close> from the
    zero body (the caller drops the error);
  \<^item> \<open>Sprintf_v\<close>: \<^verbatim>\<open>fmt.Sprintf("%v", v)\<close>;
  \<^item> \<open>rank\<close>: the order in which \<^verbatim>\<open>range\<close> visits the keys of a map, which Go leaves
    open: the keys are visited by ascending rank, so that every order of distinct keys is
    the order of some \<open>rank\<close>;
  \<^item> \<open>fault\<close>: the storage calls that fail, by their position in the sequence of calls.
\<close>

record env =
  Unmarshal_PostmanCollection :: "string \<Rightarrow> error + PostmanCollection"
  dec_PostmanItems :: "json list \<Rightarrow> error option \<times> PostmanItem list"
  dec_PostmanEvents :: "json list \<Rightarrow> error option \<times> json list"
  dec_PostmanResponses :: "json list \<Rightarrow> error option \<times> json list"
  Unmarshal_PostmanBody :: "json \<Rightarrow> PostmanBody"
  Sprintf_v :: "json \<Rightarrow> string"
  rank :: "string \<Rightarrow> nat"
  fault :: "nat \<Rightarrow> bool"

definition range_map :: "env \<Rightarrow> (string \<times> 'v) list \<Rightarrow> (string \<times> 'v) list" where
  "range_map E m = sort_key (\<lambda>kv. rank E (fst kv)) m"

text \<open>
  The database: the two tables, newest row first (the order of \<^verbatim>\<open>created_at DESC\<close>), the
  two \<^verbatim>\<open>autoincrement\<close> counters and the number of calls made so far.
\<close>

record DB =
  collections :: "Collection list"
  requests :: "Request list"
  next_collection_id :: int
  next_request_id :: int
  ops :: nat

text \<open>
  \<^verbatim>\<open>JSONMap.Scan\<close>: a \<^verbatim>\<open>NULL\<close> column (\<open>None\<close>) and a column that does not decode are
  the empty map. A nil map is written as \<^verbatim>\<open>NULL\<close>, any other as its JSON object.
\<close>

definition JSONMap_Scan :: "json option \<Rightarrow> JSONMap" where
  "JSONMap_Scan src =
     (case src of
        None \<Rightarrow> Some []
      | Some sourceBytes \<Rightarrow>
          (case unmarshal_JSONMap sourceBytes None of
             (Some err, _) \<Rightarrow> Some []
           | (None, j) \<Rightarrow> j))"

definition jsonb_column :: "JSONMap \<Rightarrow> json option" where
  "jsonb_column m = map_option JObj m"

definition scan_Collection :: "Collection \<Rightarrow> Collection" where
  "scan_Collection c = c\<lparr>
     c_Variables := JSONMap_Scan (jsonb_column (c_Variables c)),
     c_Auth := JSONMap_Scan (jsonb_column (c_Auth c)),
     c_Events := JSONMap_Scan (jsonb_column (c_Events c)),
     c_Items := JSONMap_Scan (jsonb_column (c_Items c))\<rparr>"

definition scan_Request :: "Request \<Rightarrow> Request" where
  "scan_Request r = r\<lparr>
     r_URL := JSONMap_Scan (jsonb_column (r_URL r)),
     r_Params := JSONMap_Scan (jsonb_column (r_Params r)),
     r_Body := JSONMap_Scan (jsonb_column (r_Body r)),
     r_Auth := JSONMap_Scan (jsonb_column (r_Auth r)),
     r_Events := JSONMap_Scan (jsonb_column (r_Events r)),
     r_Responses := JSONMap_Scan (jsonb_column (r_Responses r))\<rparr>"

definition tick :: "DB \<Rightarrow> DB" where
  "tick d = d\<lparr>ops := Suc (ops d)\<rparr>"

definition collectionRepo_Create :: "env \<Rightarrow> DB \<Rightarrow> Collection \<Rightarrow> (error + Collection) \<times> DB" where
  "collectionRepo_Create E d collection =
     (if fault E (ops d) then (Inl (Wrap ''failed to create collection'' DBError), tick d)
      else
        (let stored = collection\<lparr>c_ID := next_collection_id d\<rparr> in
         (Inr stored,
          tick d\<lparr>collections := stored # collections d,
                 next_collection_id := next_collection_id d + 1\<rparr>)))"

definition collectionRepo_GetByID :: "env \<Rightarrow> DB \<Rightarrow> int \<Rightarrow> (error + Collection) \<times> DB" where
  "collectionRepo_GetByID E d ident =
     (if fault E (ops d) then (Inl (Wrap ''failed to get collection by ID'' DBError), tick d)
      else
        (case find (\<lambda>c. c_ID c = ident) (collections d) of
           None \<Rightarrow> (Inl (Wrap ''failed to get collection by ID'' (ErrorString ''sql: no rows in result set'')), tick d)
         | Some c \<Rightarrow> (Inr (scan_Collection c), tick d)))"

definition requestRepo_Create :: "env \<Rightarrow> DB \<Rightarrow> Request \<Rightarrow> (error + Request) \<times> DB" where
  "requestRepo_Create E d request =
     (if fault E (ops d) then (Inl (Wrap ''failed to create request'' DBError), tick d)
      else
        (let stored = request\<lparr>r_ID := next_request_id d\<rparr> in
         (Inr stored,
          tick d\<lparr>requests := stored # requests d,
                 next_request_id := next_request_id d + 1\<rparr>)))"

definition requestRepo_ListByCollectionID ::
  "env \<Rightarrow> DB \<Rightarrow> int \<Rightarrow> nat \<Rightarrow> nat \<Rightarrow> (error + Request list) \<times> DB" where
  "requestRepo_ListByCollectionID E d collectionID offset limit =
     (if fault E (ops d) then (Inl (Wrap ''failed to list requests by collection ID'' DBError), tick d)
      else
        (Inr (map scan_Request
                (take limit (drop offset (filter (\<lambda>r. r_CollectionID r = collectionID) (requests d))))),
         tick d))"

section \<open>Import (internal/service/collection_service.go)\<close>

text \<open>The URL of a request, lines 184 to 210 of the service.\<close>

definition urlMap_of :: "json \<Rightarrow> JSONMap" where
  "urlMap_of url =
     (let urlMap =
        (case url of
           JStr v \<Rightarrow> (if v \<noteq> [] then Some [(''raw'', JStr v)] else Some [])
         | _ \<Rightarrow>
            (let urlBytes = marshal_any url in
             case unmarshal_JSONMap urlBytes None of
               (Some err, _) \<Rightarrow> Some []
             | (None, m) \<Rightarrow> m))
      in if urlMap = None then Some [] else urlMap)"

text \<open>The headers of a request, lines 212 to 218.\<close>

definition headers_of :: "KeyValuePair list \<Rightarrow> (string \<times> string) list option" where
  "headers_of header =
     (if length header > 0
      then Some (fold (\<lambda>kv headers. AList.update (kv_Key kv) (kv_Value kv) headers) header [])
      else None)"

text \<open>A field that is encoded and decoded into a \<^verbatim>\<open>JSONMap\<close>, and kept only when that works.\<close>

definition reencode_JSONMap :: "json \<Rightarrow> JSONMap" where
  "reencode_JSONMap bytes =
     (case unmarshal_JSONMap bytes None of
        (Some err, _) \<Rightarrow> None
      | (None, m) \<Rightarrow> m)"

definition new_Request :: "PostmanItem \<Rightarrow> PostmanRequest \<Rightarrow> int \<Rightarrow> string \<Rightarrow> Request" where
  "new_Request item req collectionID parentPath = \<lparr>
     r_ID = 0,
     r_CollectionID = collectionID,
     r_Name = item_Name item,
     r_Description = item_Description item,
     r_FolderPath = parentPath,
     r_URL = urlMap_of (req_URL req),
     r_Method = req_Method req,
     r_Headers = headers_of (req_Header req),
     r_Params = None,
     r_Body = reencode_JSONMap (marshal_PostmanBody (req_Body req)),
     r_Auth = (case req_Auth req of None \<Rightarrow> None | Some raw \<Rightarrow> reencode_JSONMap raw),
     r_Events = (if length (item_Event item) > 0 then reencode_JSONMap (marshal_events (item_Event item)) else None),
     r_Responses = (if length (item_Response item) > 0 then reencode_JSONMap (marshal_events (item_Response item)) else None),
     r_PostmanID = item_PostmanID item\<rparr>"

definition currentPath_of :: "string \<Rightarrow> string \<Rightarrow> string" where
  "currentPath_of parentPath name =
     (if parentPath \<noteq> [] then parentPath @ ''/'' else parentPath) @ name"

fun processPostmanItems :: "env \<Rightarrow> PostmanItem list \<Rightarrow> int \<Rightarrow> string \<Rightarrow> DB \<Rightarrow> error option \<times> DB" where
  "processPostmanItems E [] collectionID parentPath d = (None, d)"
| "processPostmanItems E (PostmanItem name description children request response event variable auth pid # items)
       collectionID parentPath d =
     (let item = PostmanItem name description children request response event variable auth pid;
          currentPath = currentPath_of parentPath name
      in
        if length children > 0 then
          (case processPostmanItems E children collectionID currentPath d of
             (Some err, d') \<Rightarrow> (Some err, d')
           | (None, d') \<Rightarrow> processPostmanItems E items collectionID parentPath d')
        else
          (case request of
             None \<Rightarrow> processPostmanItems E items collectionID parentPath d
           | Some req \<Rightarrow>
               (case requestRepo_Create E d (new_Request item req collectionID parentPath) of
                  (Inl err, d') \<Rightarrow> (Some (Wrap ''failed to create request'' err), d')
                | (Inr stored, d') \<Rightarrow> processPostmanItems E items collectionID parentPath d')))"

definition variables_of :: "KeyValuePair list \<Rightarrow> JSONMap" where
  "variables_of variable =
     Some (fold (\<lambda>v variables. AList.update (kv_Key v) (JStr (kv_Value v)) variables) variable [])"

definition slice_elems :: "'a list option \<Rightarrow> 'a list" where
  "slice_elems xs = (case xs of None \<Rightarrow> [] | Some ys \<Rightarrow> ys)"

definition new_Collection :: "PostmanCollection \<Rightarrow> Collection" where
  "new_Collection postmanCollection = \<lparr>
     c_ID = 0,
     c_Name = info_Name (pc_Info postmanCollection),
     c_Description = info_Description (pc_Info postmanCollection),
     c_Schema = pc_Schema postmanCollection,
     c_Variables = variables_of (pc_Variable postmanCollection),
     c_Auth = (case pc_Auth postmanCollection of None \<Rightarrow> None | Some raw \<Rightarrow> snd (unmarshal_JSONMap raw None)),
     c_Events = (if length (pc_Event postmanCollection) > 0
                 then snd (unmarshal_JSONMap (marshal_events (pc_Event postmanCollection)) None) else None),
     c_Items = snd (unmarshal_JSONMap (marshal_PostmanItems (pc_Item postmanCollection)) None),
     c_PostmanID = info_PostmanID (pc_Info postmanCollection),
     c_ExporterID = info_ExporterID (pc_Info postmanCollection)\<rparr>"

definition ImportPostmanCollection :: "env \<Rightarrow> DB \<Rightarrow> string \<Rightarrow> (error + int) \<times> DB" where
  "ImportPostmanCollection E d bytes =
     (case Unmarshal_PostmanCollection E bytes of
        Inl err \<Rightarrow> (Inl (Wrap ''invalid Postman collection format'' err), d)
      | Inr postmanCollection \<Rightarrow>
          if info_Name (pc_Info postmanCollection) = [] then (Inl (ErrorString ''collection name is required''), d)
          else
            (case collectionRepo_Create E d (new_Collection postmanCollection) of
               (Inl err, d1) \<Rightarrow> (Inl (Wrap ''failed to create collection'' err), d1)
             | (Inr collection, d1) \<Rightarrow>
                 (case processPostmanItems E (slice_elems (pc_Item postmanCollection)) (c_ID collection) [] d1 of
                    (Some err, d2) \<Rightarrow> (Inl err, d2)
                  | (None, d2) \<Rightarrow> (Inr (c_ID collection), d2))))"

section \<open>Export (internal/service/collection_service.go)\<close>

definition len_JSONMap :: "JSONMap \<Rightarrow> nat" where
  "len_JSONMap m = (case m of None \<Rightarrow> 0 | Some kvs \<Rightarrow> length kvs)"

text \<open>
  The cached tree, lines 284 to 289: the items the fast path would return, \<open>None\<close> when
  the export goes on to rebuild the tree.
\<close>

definition cached_items :: "env \<Rightarrow> Collection \<Rightarrow> PostmanItem list option option" where
  "cached_items E collection =
     (if len_JSONMap (c_Items collection) > 0 then
        (let itemsBytes = marshal_JSONMap (c_Items collection) in
         case unmarshal_slice (dec_PostmanItems E) itemsBytes None of
           (None, items) \<Rightarrow> Some items
         | (Some err, _) \<Rightarrow> None)
      else None)"

text \<open>
  The variables, auth and events of the collection, which the service fills in twice with
  the same lines (291 to 308 and 389 to 406).
\<close>

definition new_KeyValuePair :: "string \<Rightarrow> string \<Rightarrow> KeyValuePair" where
  "new_KeyValuePair k v = \<lparr>kv_Key = k, kv_Value = v, kv_Description = JNull, kv_Type = [],
     kv_Disabled = False, kv_Name = []\<rparr>"

definition with_metadata :: "env \<Rightarrow> Collection \<Rightarrow> PostmanCollection \<Rightarrow> PostmanCollection" where
  "with_metadata E collection postmanCollection = postmanCollection\<lparr>
     pc_Variable :=
       (case c_Variables collection of
          None \<Rightarrow> pc_Variable postmanCollection
        | Some vars \<Rightarrow>
            pc_Variable postmanCollection
              @ map (\<lambda>(k, v). new_KeyValuePair k (Sprintf_v E v)) (range_map E vars)),
     pc_Auth :=
       (case c_Auth collection of
          None \<Rightarrow> pc_Auth postmanCollection
        | Some a \<Rightarrow> Some (marshal_JSONMap (c_Auth collection))),
     pc_Event :=
       (case c_Events collection of
          None \<Rightarrow> pc_Event postmanCollection
        | Some ev \<Rightarrow>
            slice_elems (snd (unmarshal_slice (dec_PostmanEvents E)
              (marshal_JSONMap (c_Events collection)) None)))\<rparr>"

definition new_PostmanCollection :: "Collection \<Rightarrow> PostmanCollection" where
  "new_PostmanCollection collection = \<lparr>
     pc_Info = \<lparr>info_Name = c_Name collection,
                info_Description = c_Description collection,
                info_Schema = c_Schema collection,
                info_PostmanID = c_PostmanID collection,
                info_ExporterID = c_ExporterID collection,
                info_CollectionLink = []\<rparr>,
     pc_Item = None,
     pc_Variable = [],
     pc_Auth = None,
     pc_Event = [],
     pc_Schema = ''https://schema.getpostman.com/json/collection/v2.1.0/collection.json''\<rparr>"

text \<open>The item of one request record, lines 322 to 368.\<close>

definition postmanReq_of :: "env \<Rightarrow> Request \<Rightarrow> PostmanRequest" where
  "postmanReq_of E req = \<lparr>
     req_URL = (case r_URL req of None \<Rightarrow> JNull | Some u \<Rightarrow> unmarshal_any (marshal_JSONMap (r_URL req))),
     req_Method = r_Method req,
     req_Header =
       (case r_Headers req of
          None \<Rightarrow> []
        | Some hs \<Rightarrow> map (\<lambda>(k, v). new_KeyValuePair k v) (range_map E hs)),
     req_Body =
       (case r_Body req of
          None \<Rightarrow> zero_PostmanBody
        | Some b \<Rightarrow> Unmarshal_PostmanBody E (marshal_JSONMap (r_Body req))),
     req_Description = r_Description req,
     req_Auth = (case r_Auth req of None \<Rightarrow> None | Some a \<Rightarrow> Some (marshal_JSONMap (r_Auth req)))\<rparr>"

definition item_of :: "env \<Rightarrow> Request \<Rightarrow> PostmanItem" where
  "item_of E req = PostmanItem
     (r_Name req)
     (r_Description req)
     []
     (Some (postmanReq_of E req))
     (case r_Responses req of
        None \<Rightarrow> []
      | Some rs \<Rightarrow> slice_elems (snd (unmarshal_slice (dec_PostmanResponses E) (marshal_JSONMap (r_Responses req)) None)))
     (case r_Events req of
        None \<Rightarrow> []
      | Some ev \<Rightarrow> slice_elems (snd (unmarshal_slice (dec_PostmanEvents E) (marshal_JSONMap (r_Events req)) None)))
     []
     None
     (r_PostmanID req)"

text \<open>
  \<^verbatim>\<open>folderMap\<close>, lines 320 to 372: a map from folder path to the items of that path, in the
  order of the requests. A missing key reads as the nil slice.
\<close>

definition folderMap_get :: "(string \<times> PostmanItem list) list \<Rightarrow> string \<Rightarrow> PostmanItem list" where
  "folderMap_get folderMap path = (case map_of folderMap path of None \<Rightarrow> [] | Some items \<Rightarrow> items)"

definition folderMap_of :: "env \<Rightarrow> Request list \<Rightarrow> (string \<times> PostmanItem list) list" where
  "folderMap_of E reqs =
     fold (\<lambda>req folderMap.
             AList.update (r_FolderPath req) (folderMap_get folderMap (r_FolderPath req) @ [item_of E req]) folderMap)
          reqs []"

definition new_folder :: "string \<Rightarrow> PostmanItem list \<Rightarrow> PostmanItem" where
  "new_folder path items = PostmanItem path [] items None [] [] [] None []"

text \<open>The root item list, lines 374 to 387.\<close>

definition build_items :: "env \<Rightarrow> Request list \<Rightarrow> PostmanItem list option" where
  "build_items E reqs =
     (let folderMap = folderMap_of E reqs in
      fold (\<lambda>(path, items) root.
              if path = [] then root else Some (slice_elems root @ [new_folder path items]))
           (range_map E folderMap)
           (map_of folderMap []))"

definition export_document :: "env \<Rightarrow> DB \<Rightarrow> int \<Rightarrow> (error + PostmanCollection) \<times> DB" where
  "export_document E d ident =
     (case collectionRepo_GetByID E d ident of
        (Inl err, d1) \<Rightarrow> (Inl (Wrap ''failed to get collection'' err), d1)
      | (Inr collection, d1) \<Rightarrow>
          (let postmanCollection = new_PostmanCollection collection in
           case cached_items E collection of
             Some items \<Rightarrow>
               (Inr (with_metadata E collection (postmanCollection\<lparr>pc_Item := items\<rparr>)), d1)
           | None \<Rightarrow>
               (case requestRepo_ListByCollectionID E d1 ident 0 1000 of
                  (Inl err, d2) \<Rightarrow> (Inl (Wrap ''failed to get requests'' err), d2)
                | (Inr reqs, d2) \<Rightarrow>
                    (Inr (with_metadata E collection (postmanCollection\<lparr>pc_Item := build_items E reqs\<rparr>)), d2))))"

text \<open>The bytes returned are the encoding of that document (\<^verbatim>\<open>json.MarshalIndent\<close>).\<close>

definition ExportPostmanCollection :: "env \<Rightarrow> DB \<Rightarrow> int \<Rightarrow> (error + json) \<times> DB" where
  "ExportPostmanCollection E d ident =
     (case export_document E d ident of
        (Inl err, d') \<Rightarrow> (Inl err, d')
      | (Inr postmanCollection, d') \<Rightarrow> (Inr (marshal_PostmanCollection postmanCollection), d'))"

section \<open>The notions of the specification\<close>

text \<open>
  The walk as the specification words it: \<open>Flatten\<close> gives the records, in encounter
  order, and \<open>persist_all\<close> hands them one by one to the storage, stopping at the first
  failure.
\<close>

fun Flatten :: "PostmanItem list \<Rightarrow> int \<Rightarrow> string \<Rightarrow> Request list" where
  "Flatten [] collectionID parentPath = []"
| "Flatten (PostmanItem name description children request response event variable auth pid # nodes)
       collectionID parentPath =
     (if children \<noteq> [] then
        Flatten children collectionID
          (if parentPath \<noteq> [] then parentPath @ ''/'' @ name else name)
      else
        (case request of
           None \<Rightarrow> []
         | Some req \<Rightarrow>
             [new_Request (PostmanItem name description children request response event variable auth pid)
                req collectionID parentPath]))
     @ Flatten nodes collectionID parentPath"

fun persist_all :: "env \<Rightarrow> Request list \<Rightarrow> DB \<Rightarrow> error option \<times> DB" where
  "persist_all E [] d = (None, d)"
| "persist_all E (r # rs) d =
     (case requestRepo_Create E d r of
        (Inl err, d') \<Rightarrow> (Some (Wrap ''failed to create request'' err), d')
      | (Inr stored, d') \<Rightarrow> persist_all E rs d')"

text \<open>The rows of a list of records, with the identities the storage gives them.\<close>

fun stamp_ids :: "int \<Rightarrow> Request list \<Rightarrow> Request list" where
  "stamp_ids n [] = []"
| "stamp_ids n (r # rs) = r\<lparr>r_ID := n\<rparr> # stamp_ids (n + 1) rs"

text \<open>
  Every node of a tree, at any depth, with the names of the folders above it, outermost
  first. This enumeration does not look at what a node holds.
\<close>

fun tree_nodes :: "string list \<Rightarrow> PostmanItem list \<Rightarrow> (string list \<times> PostmanItem) list" where
  "tree_nodes ancestors [] = []"
| "tree_nodes ancestors (PostmanItem name description children request response event variable auth pid # nodes) =
     (ancestors, PostmanItem name description children request response event variable auth pid)
     # tree_nodes (ancestors @ [name]) children
     @ tree_nodes ancestors nodes"

text \<open>A node with a request payload and an empty or absent nested item array.\<close>

definition is_request_leaf :: "PostmanItem \<Rightarrow> bool" where
  "is_request_leaf node = (item_Request node \<noteq> None \<and> item_Item node = [])"

definition request_leaves :: "string list \<Rightarrow> PostmanItem list \<Rightarrow> (string list \<times> PostmanItem) list" where
  "request_leaves ancestors nodes = filter (\<lambda>(a, node). is_request_leaf node) (tree_nodes ancestors nodes)"

text \<open>The path the walk has built when it has gone down through folders of these names.\<close>

definition path_of :: "string list \<Rightarrow> string" where
  "path_of ancestors = foldl currentPath_of [] ancestors"

definition record_of :: "int \<Rightarrow> string list \<times> PostmanItem \<Rightarrow> Request" where
  "record_of collectionID an =
     new_Request (snd an) (the (item_Request (snd an))) collectionID (path_of (fst an))"

text \<open>The names joined by slashes.\<close>

fun join_slash :: "string list \<Rightarrow> string" where
  "join_slash [] = []"
| "join_slash [name] = name"
| "join_slash (name # names) = name @ ''/'' @ join_slash names"

definition no_edge_slash :: "string \<Rightarrow> bool" where
  "no_edge_slash s = (s = [] \<or> (hd s \<noteq> CHR ''/'' \<and> last s \<noteq> CHR ''/''))"

text \<open>
  The raw string of a URL of the exchange format: the string itself, or the \<^verbatim>\<open>raw\<close>
  member of the object; the empty string when there is none (the zero value of
  \<^verbatim>\<open>URLObject.Raw\<close>).
\<close>

definition url_raw :: "json \<Rightarrow> string" where
  "url_raw url =
     (case url of
        JStr s \<Rightarrow> s
      | JObj kvs \<Rightarrow> (case map_of (rev kvs) ''raw'' of Some (JStr s) \<Rightarrow> s | _ \<Rightarrow> [])
      | _ \<Rightarrow> [])"

text \<open>The (name, method, raw URL) of every request of a document, at any depth.\<close>

definition node_triples :: "PostmanItem \<Rightarrow> (string \<times> string \<times> string) list" where
  "node_triples node =
     (case item_Request node of
        None \<Rightarrow> []
      | Some req \<Rightarrow> [(item_Name node, req_Method req, url_raw (req_URL req))])"

definition triples_under :: "string list \<Rightarrow> PostmanItem list \<Rightarrow> (string \<times> string \<times> string) list" where
  "triples_under ancestors items = concat (map (\<lambda>(a, node). node_triples node) (tree_nodes ancestors items))"

definition triples_of :: "PostmanItem list \<Rightarrow> (string \<times> string \<times> string) list" where
  "triples_of items = triples_under [] items"

text \<open>
  The shape of the fixture: a tree, of any depth, in which a node with nested items is a
  folder (it has no request) and a node without nested items is a request; somewhere in it
  a folder that holds two requests or more, and at the root a request.
\<close>

fun is_folder_tree :: "PostmanItem \<Rightarrow> bool" where
  "is_folder_tree (PostmanItem name description children request response event variable auth pid) =
     (if children = [] then request \<noteq> None
      else request = None \<and> list_all is_folder_tree children)"

definition holds_two_requests :: "PostmanItem \<Rightarrow> bool" where
  "holds_two_requests node =
     (item_Request node = None \<and> 2 \<le> length (filter is_request_leaf (item_Item node)))"

definition fixture_shape :: "PostmanItem list \<Rightarrow> bool" where
  "fixture_shape items =
     (list_all is_folder_tree items
      \<and> list_ex (\<lambda>(a, node). holds_two_requests node) (tree_nodes [] items)
      \<and> list_ex is_request_leaf items)"

subsection \<open>Sample values\<close>

definition env0 :: env where
  "env0 = \<lparr>
     Unmarshal_PostmanCollection = (\<lambda>bytes. Inl SyntaxError),
     dec_PostmanItems = (\<lambda>es. (Some UnmarshalTypeError, [])),
     dec_PostmanEvents = (\<lambda>es. (Some UnmarshalTypeError, [])),
     dec_PostmanResponses = (\<lambda>es. (Some UnmarshalTypeError, [])),
     Unmarshal_PostmanBody = (\<lambda>j. zero_PostmanBody),
     Sprintf_v = (\<lambda>v. case v of JStr s \<Rightarrow> s | _ \<Rightarrow> []),
     rank = (\<lambda>k. 0),
     fault = (\<lambda>n. False)\<rparr>"

definition db0 :: DB where
  "db0 = \<lparr>collections = [], requests = [], next_collection_id = 1, next_request_id = 1, ops = 0\<rparr>"

definition sample_request :: "string \<Rightarrow> json \<Rightarrow> PostmanRequest" where
  "sample_request m url = \<lparr>req_URL = url, req_Method = m, req_Header = [], req_Body = zero_PostmanBody,
     req_Description = [], req_Auth = None\<rparr>"

definition sample_leaf :: "string \<Rightarrow> string \<Rightarrow> json \<Rightarrow> PostmanItem" where
  "sample_leaf name m url = PostmanItem name [] [] (Some (sample_request m url)) [] [] [] None []"

definition sample_doc :: "PostmanItem list \<Rightarrow> PostmanCollection" where
  "sample_doc items = \<lparr>
     pc_Info = \<lparr>info_Name = ''Demo'', info_Description = [], info_Schema = [], info_PostmanID = [],
                info_ExporterID = [], info_CollectionLink = []\<rparr>,
     pc_Item = Some items, pc_Variable = [], pc_Auth = None, pc_Event = [], pc_Schema = []\<rparr>"

text \<open>The fixture: a folder with two requests, and a request at the root.\<close>

definition fixture_items :: "PostmanItem list" where
  "fixture_items =
     [new_folder ''Auth''
        [sample_leaf ''Login'' ''POST'' (JStr ''https://example.com/login''),
         sample_leaf ''Logout'' ''POST'' (JObj [(''raw'', JStr ''https://example.com/logout''), (''host'', JArr [JStr ''example'', JStr ''com''])])],
      sample_leaf ''Ping'' ''GET'' (JStr ''https://example.com/a'')]"

text \<open>A request two folders down, in \<^verbatim>\<open>Auth\<close> then \<^verbatim>\<open>Login\<close>, and one at the root.\<close>

definition nested_items :: "PostmanItem list" where
  "nested_items =
     [new_folder ''Auth'' [new_folder ''Login'' [sample_leaf ''Submit'' ''POST'' (JStr ''https://example.com/login'')]],
      sample_leaf ''Ping'' ''GET'' (JStr ''https://example.com/a'')]"

text \<open>A request in a folder \<^verbatim>\<open>B\<close> inside a folder whose name is empty.\<close>

definition unnamed_folder_items :: "PostmanItem list" where
  "unnamed_folder_items =
     [new_folder [] [new_folder ''B'' [sample_leaf ''Submit'' ''POST'' (JStr ''https://example.com/login'')]]]"

text \<open>The document \<^verbatim>\<open>{}\<close>: no name, no item.\<close>

definition unnamed_doc :: PostmanCollection where
  "unnamed_doc = \<lparr>
     pc_Info = \<lparr>info_Name = [], info_Description = [], info_Schema = [], info_PostmanID = [],
                info_ExporterID = [], info_CollectionLink = []\<rparr>,
     pc_Item = None, pc_Variable = [], pc_Auth = None, pc_Event = [], pc_Schema = []\<rparr>"

text \<open>A stored collection with no request, alone in the database.\<close>

definition demo_collection :: Collection where
  "demo_collection = \<lparr>c_ID = 1, c_Name = ''Demo'', c_Description = [], c_Schema = ''v2.0.0'',
     c_Variables = Some [], c_Auth = None, c_Events = None, c_Items = None,
     c_PostmanID = [], c_ExporterID = []\<rparr>"

definition demo_db :: DB where
  "demo_db = \<lparr>collections = [demo_collection], requests = [], next_collection_id = 2,
     next_request_id = 1, ops = 0\<rparr>"

text \<open>
  The same collection with 1001 requests: the oldest in the folder \<^verbatim>\<open>X\<close>, the thousand
  newer ones at the root.
\<close>

definition sample_row :: "string \<Rightarrow> string \<Rightarrow> Request" where
  "sample_row name path = \<lparr>r_ID = 0, r_CollectionID = 1, r_Name = name, r_Description = [],
     r_FolderPath = path, r_URL = Some [(''raw'', JStr ''https://example.com/a'')], r_Method = ''GET'',
     r_Headers = None, r_Params = None, r_Body = None, r_Auth = None, r_Events = None,
     r_Responses = None, r_PostmanID = []\<rparr>"

definition crowded_db :: DB where
  "crowded_db = \<lparr>collections = [demo_collection],
     requests = replicate 1000 (sample_row ''Ping'' []) @ [sample_row ''Old'' ''X''],
     next_collection_id = 2, next_request_id = 1002, ops = 0\<rparr>"

text \<open>
  The three-level fixture: a folder \<^verbatim>\<open>Auth\<close> with a folder \<^verbatim>\<open>Login\<close> of two requests, and
  a request at the root.
\<close>

definition three_level_items :: "PostmanItem list" where
  "three_level_items =
     [new_folder ''Auth''
        [new_folder ''Login''
           [sample_leaf ''Submit'' ''POST'' (JStr ''https://example.com/login''),
            sample_leaf ''Cancel'' ''GET'' (JObj [(''raw'', JStr ''https://example.com/cancel''), (''host'', JArr [JStr ''example'', JStr ''com''])])]],
      sample_leaf ''Ping'' ''GET'' (JStr ''https://example.com/a'')]"

text \<open>
  A document of the shape of the fixture with 1001 requests: a folder \<^verbatim>\<open>Auth\<close> with a folder
  \<^verbatim>\<open>Login\<close> of two requests, 499 folders of two requests and a request at the root. The
  first request of \<^verbatim>\<open>Login\<close> is \<^verbatim>\<open>First\<close>, every other request is \<^verbatim>\<open>Ping\<close>.
\<close>

definition ping :: PostmanItem where
  "ping = sample_leaf ''Ping'' ''GET'' (JStr ''https://example.com/a'')"

definition first_request :: PostmanItem where
  "first_request = sample_leaf ''First'' ''GET'' (JStr ''https://example.com/a'')"

definition crowded_items :: "PostmanItem list" where
  "crowded_items =
     new_folder ''Auth'' [new_folder ''Login'' [first_request, ping]]
     # replicate 499 (new_folder ''F'' [ping, ping])
     @ [ping]"

text \<open>The library when the bytes of the import decode into a given document.\<close>

definition env_decoding :: "PostmanCollection \<Rightarrow> env" where
  "env_decoding doc = env0\<lparr>Unmarshal_PostmanCollection := (\<lambda>bytes. Inr doc)\<rparr>"

section \<open>Facts about the library model\<close>

lemma fold_update_keys:
  "fst ` set (fold (\<lambda>(k, v). AList.update k v) kvs acc) = fst ` set kvs \<union> fst ` set acc"
  by (induction kvs arbitrary: acc) (auto simp: dom_update image_iff split: prod.splits)

lemma fold_update_map_of:
  "map_of (fold (\<lambda>(k, v). AList.update k v) kvs acc) = map_of acc ++ map_of (rev kvs)"
  by (induction kvs arbitrary: acc) (auto simp: update_conv' map_add_def fun_eq_iff split: option.splits)

lemma fold_update_distinct:
  "distinct (map fst acc) \<Longrightarrow> distinct (map fst (fold (\<lambda>(k, v). AList.update k v) kvs acc))"
  by (induction kvs arbitrary: acc) (auto simp: distinct_update)

lemma headers_fold_map_of:
  "map_of (fold (\<lambda>kv headers. AList.update (kv_Key kv) (kv_Value kv) headers) hs acc)
   = fold (\<lambda>kv m. m(kv_Key kv \<mapsto> kv_Value kv)) hs (map_of acc)"
  by (induction hs arbitrary: acc) (auto simp: update_conv')

lemma headers_fold_distinct:
  "distinct (map fst acc) \<Longrightarrow>
   distinct (map fst (fold (\<lambda>kv headers. AList.update (kv_Key kv) (kv_Value kv) headers) hs acc))"
  by (induction hs arbitrary: acc) (auto simp: distinct_update)

section \<open>Field normalization on import\<close>

text \<open>
  Claim C3. The URL of the record built for an imported request is always a map, never
  the nil map: a non-empty string \<open>s\<close> gives the map with the one binding of \<^verbatim>\<open>raw\<close> to
  \<open>s\<close>; nil and the empty string give the empty map; an object gives the map of its
  members, which has every key of the object and, for each key, the member a lookup in the
  object finds; a value other than a string whose encoding does not decode into a map
  gives the empty map. The storage keeps that URL in the row it creates.
\<close>

theorem stored_url_is_canonical_object:
  "r_URL (new_Request item req cid pp) =
     (case req_URL req of
        JStr s \<Rightarrow> (if s = [] then Some [] else Some [(''raw'', JStr s)])
      | JObj kvs \<Rightarrow> Some (fold (\<lambda>(k, v). AList.update k v) kvs [])
      | _ \<Rightarrow> Some [])
   \<and> r_URL (new_Request item req cid pp) \<noteq> None
   \<and> (\<forall>kvs. fst ` set (fold (\<lambda>(k, v). AList.update k v) kvs []) = fst ` set kvs
          \<and> map_of (fold (\<lambda>(k, v). AList.update k v) kvs []) = map_of (rev kvs))
   \<and> ((\<forall>s. req_URL req \<noteq> JStr s) \<and> fst (unmarshal_JSONMap (marshal_any (req_URL req)) None) \<noteq> None
        \<longrightarrow> r_URL (new_Request item req cid pp) = Some [])
   \<and> (\<forall>E d. case requestRepo_Create E d (new_Request item req cid pp) of
                (Inl err, d') \<Rightarrow> requests d' = requests d
              | (Inr stored, d') \<Rightarrow>
                  r_URL stored = r_URL (new_Request item req cid pp) \<and> requests d' = stored # requests d)"
proof -
  have a: "r_URL (new_Request item req cid pp) =
     (case req_URL req of
        JStr s \<Rightarrow> (if s = [] then Some [] else Some [(''raw'', JStr s)])
      | JObj kvs \<Rightarrow> Some (fold (\<lambda>(k, v). AList.update k v) kvs [])
      | _ \<Rightarrow> Some [])"
    by (simp add: new_Request_def urlMap_of_def unmarshal_JSONMap_def marshal_any_def split: json.splits)
  have b: "r_URL (new_Request item req cid pp) \<noteq> None"
    by (simp add: a split: json.splits)
  have c: "\<forall>kvs. fst ` set (fold (\<lambda>(k, v). AList.update k v) kvs []) = fst ` set kvs
          \<and> map_of (fold (\<lambda>(k, v). AList.update k v) kvs []) = map_of (rev kvs)"
    by (simp add: fold_update_keys fold_update_map_of)
  have d: "(\<forall>s. req_URL req \<noteq> JStr s) \<and> fst (unmarshal_JSONMap (marshal_any (req_URL req)) None) \<noteq> None
        \<longrightarrow> r_URL (new_Request item req cid pp) = Some []"
    by (auto simp: a unmarshal_JSONMap_def marshal_any_def split: json.splits)
  have e: "\<forall>E d. case requestRepo_Create E d (new_Request item req cid pp) of
                (Inl err, d') \<Rightarrow> requests d' = requests d
              | (Inr stored, d') \<Rightarrow>
                  r_URL stored = r_URL (new_Request item req cid pp) \<and> requests d' = stored # requests d"
    by (simp add: requestRepo_Create_def Let_def tick_def)
  from a b c d e show ?thesis by blast
qed

theorem stored_url_is_canonical_object_witness:
  "r_URL (new_Request (sample_leaf ''Ping'' ''GET'' (JArr [JStr ''a''])) (sample_request ''GET'' (JArr [JStr ''a''])) 1 [])
     = Some []"
proof -
  have h: "(\<forall>s. req_URL (sample_request ''GET'' (JArr [JStr ''a''])) \<noteq> JStr s)
     \<and> fst (unmarshal_JSONMap (marshal_any (req_URL (sample_request ''GET'' (JArr [JStr ''a'']))))  None) \<noteq> None"
    by (simp add: sample_request_def marshal_any_def unmarshal_JSONMap_def)
  from stored_url_is_canonical_object
         [of "sample_leaf ''Ping'' ''GET'' (JArr [JStr ''a''])" "sample_request ''GET'' (JArr [JStr ''a''])" 1 "[]"] h
  show ?thesis by blast
qed

text \<open>
  Claim C7. The headers of the record built for an imported request are the map obtained
  by storing the pairs of the header list in order, a later pair of a key replacing an
  earlier one; its keys are distinct. The list of \<^verbatim>\<open>A\<close> with 1, then \<^verbatim>\<open>A\<close> with 2, gives
  the map of \<^verbatim>\<open>A\<close> to 2. (An empty header list leaves the nil map, which reads as the
  empty map.)
\<close>

theorem headers_last_write_wins:
  "map_of (slice_elems (r_Headers (new_Request item req cid pp)))
     = fold (\<lambda>kv m. m(kv_Key kv \<mapsto> kv_Value kv)) (req_Header req) Map.empty
   \<and> distinct (map fst (slice_elems (r_Headers (new_Request item req cid pp))))
   \<and> r_Headers (new_Request item
        (req\<lparr>req_Header := [new_KeyValuePair ''A'' ''1'', new_KeyValuePair ''A'' ''2'']\<rparr>) cid pp)
       = Some [(''A'', ''2'')]"
proof -
  have a: "map_of (slice_elems (r_Headers (new_Request item req cid pp)))
     = fold (\<lambda>kv m. m(kv_Key kv \<mapsto> kv_Value kv)) (req_Header req) Map.empty"
    by (cases "req_Header req")
       (simp_all add: new_Request_def headers_of_def slice_elems_def headers_fold_map_of)
  have b: "distinct (map fst (slice_elems (r_Headers (new_Request item req cid pp))))"
    by (simp add: new_Request_def headers_of_def slice_elems_def headers_fold_distinct)
  have c: "r_Headers (new_Request item
        (req\<lparr>req_Header := [new_KeyValuePair ''A'' ''1'', new_KeyValuePair ''A'' ''2'']\<rparr>) cid pp)
       = Some [(''A'', ''2'')]"
    by (simp add: new_Request_def headers_of_def new_KeyValuePair_def)
  from a b c show ?thesis by blast
qed

section \<open>Import: the failures before any write\<close>

text \<open>
  Claim C5. When the bytes of an import do not decode, or decode into a document whose
  \<^verbatim>\<open>info.name\<close> is empty (an absent name decodes as the empty string), the import
  returns an error and the storage is as it was: no call to it has been made.
\<close>

theorem import_fails_before_any_write:
  assumes "(\<exists>err. Unmarshal_PostmanCollection E bytes = Inl err)
         \<or> (\<exists>p. Unmarshal_PostmanCollection E bytes = Inr p \<and> info_Name (pc_Info p) = [])"
  shows "\<exists>err. ImportPostmanCollection E d bytes = (Inl err, d)"
  using assms by (auto simp: ImportPostmanCollection_def)

theorem import_fails_before_any_write_witness:
  "(\<exists>err. ImportPostmanCollection env0 db0 ''{'' = (Inl err, db0))
   \<and> (\<exists>err. ImportPostmanCollection (env0\<lparr>Unmarshal_PostmanCollection := (\<lambda>bytes. Inr unnamed_doc)\<rparr>)
         db0 ''{}'' = (Inl err, db0))"
proof -
  have h1: "(\<exists>err. Unmarshal_PostmanCollection env0 ''{'' = Inl err)
         \<or> (\<exists>p. Unmarshal_PostmanCollection env0 ''{'' = Inr p \<and> info_Name (pc_Info p) = [])"
    by (simp add: env0_def)
  have h2: "(\<exists>err. Unmarshal_PostmanCollection
               (env0\<lparr>Unmarshal_PostmanCollection := (\<lambda>bytes. Inr unnamed_doc)\<rparr>) ''{}'' = Inl err)
         \<or> (\<exists>p. Unmarshal_PostmanCollection
               (env0\<lparr>Unmarshal_PostmanCollection := (\<lambda>bytes. Inr unnamed_doc)\<rparr>) ''{}'' = Inr p
              \<and> info_Name (pc_Info p) = [])"
    by (simp add: unnamed_doc_def)
  from import_fails_before_any_write[OF h1] import_fails_before_any_write[OF h2]
  show ?thesis by blast
qed

section \<open>The import walk\<close>

lemma persist_all_append:
  "persist_all E (xs @ ys) d =
     (case persist_all E xs d of
        (Some err, d') \<Rightarrow> (Some err, d')
      | (None, d') \<Rightarrow> persist_all E ys d')"
  by (induction xs arbitrary: d) (auto split: prod.splits sum.splits option.splits)

text \<open>The walk of the service does what the specification's \<open>Flatten\<close> and storing say.\<close>

lemma processPostmanItems_Flatten:
  "processPostmanItems E items cid pp d = persist_all E (Flatten items cid pp) d"
proof (induction E items cid pp d rule: processPostmanItems.induct)
  case (1 E cid pp d)
  show ?case by simp
next
  case (2 E name description children request response event variable auth pid items cid pp d)
  show ?case
  proof (cases "children = []")
    case True
    show ?thesis
    proof (cases request)
      case None
      with True 2 show ?thesis by simp
    next
      case (Some req)
      with True 2 show ?thesis
        by (auto split: prod.splits sum.splits)
    qed
  next
    case False
    with 2 show ?thesis
      by (auto simp: persist_all_append currentPath_of_def split: prod.splits option.splits)
  qed
qed

lemma path_of_Nil: "path_of [] = []"
  by (simp add: path_of_def)

lemma Flatten_tree_nodes:
  "Flatten items cid (path_of anc) = map (record_of cid) (request_leaves anc items)"
proof (induction anc items rule: tree_nodes.induct)
  case (1 anc)
  show ?case by (simp add: request_leaves_def)
next
  case (2 anc name description children request response event variable auth pid nodes)
  have p: "path_of (anc @ [name]) = (if path_of anc \<noteq> [] then path_of anc @ ''/'' @ name else name)"
    by (simp add: path_of_def currentPath_of_def)
  show ?case
  proof (cases "children = []")
    case True
    with 2 show ?thesis
      by (auto simp: request_leaves_def is_request_leaf_def record_of_def split: option.splits)
  next
    case False
    with 2 p show ?thesis
      by (auto simp: request_leaves_def is_request_leaf_def record_of_def split: option.splits)
  qed
qed

lemma walk_is_persist_all:
  "processPostmanItems E items cid (path_of anc) d
     = persist_all E (map (record_of cid) (request_leaves anc items)) d"
  by (simp add: processPostmanItems_Flatten Flatten_tree_nodes)

lemma length_stamp_ids: "length (stamp_ids n rs) = length rs"
  by (induction rs arbitrary: n) simp_all

lemma stamp_ids_Name: "map r_Name (stamp_ids n rs) = map r_Name rs"
  by (induction rs arbitrary: n) simp_all

lemma stamp_ids_FolderPath: "map r_FolderPath (stamp_ids n rs) = map r_FolderPath rs"
  by (induction rs arbitrary: n) simp_all

lemma stamp_ids_CollectionID: "map r_CollectionID (stamp_ids n rs) = map r_CollectionID rs"
  by (induction rs arbitrary: n) simp_all

lemma persist_all_ok:
  "(\<forall>k < length rs. \<not> fault E (ops d + k)) \<Longrightarrow>
   \<exists>d'. persist_all E rs d = (None, d')
       \<and> requests d' = rev (stamp_ids (next_request_id d) rs) @ requests d
       \<and> collections d' = collections d
       \<and> next_collection_id d' = next_collection_id d
       \<and> next_request_id d' = next_request_id d + int (length rs)
       \<and> ops d' = ops d + length rs"
proof (induction rs arbitrary: d)
  case Nil
  show ?case by simp
next
  case (Cons r rs)
  from Cons.prems have nf: "\<not> fault E (ops d)" by force
  define d1 where "d1 = snd (requestRepo_Create E d r)"
  have c: "requestRepo_Create E d r = (Inr (r\<lparr>r_ID := next_request_id d\<rparr>), d1)"
    using nf by (simp add: d1_def requestRepo_Create_def Let_def)
  have d1: "requests d1 = r\<lparr>r_ID := next_request_id d\<rparr> # requests d" "collections d1 = collections d"
    "next_collection_id d1 = next_collection_id d" "next_request_id d1 = next_request_id d + 1"
    "ops d1 = Suc (ops d)"
    using nf by (simp_all add: d1_def requestRepo_Create_def Let_def tick_def)
  have "\<forall>k < length rs. \<not> fault E (ops d1 + k)"
    using Cons.prems d1(5) by (metis add_Suc_shift length_Cons Suc_less_eq)
  from Cons.IH[OF this] obtain d' where
    "persist_all E rs d1 = (None, d')"
    "requests d' = rev (stamp_ids (next_request_id d1) rs) @ requests d1"
    "collections d' = collections d1" "next_collection_id d' = next_collection_id d1"
    "next_request_id d' = next_request_id d1 + int (length rs)" "ops d' = ops d1 + length rs"
    by blast
  with c d1 show ?case by simp
qed

lemma persist_all_fail:
  "k < length rs \<Longrightarrow> (\<forall>j < k. \<not> fault E (ops d + j)) \<Longrightarrow> fault E (ops d + k) \<Longrightarrow>
   \<exists>d'. persist_all E rs d = (Some (Wrap ''failed to create request'' (Wrap ''failed to create request'' DBError)), d')
       \<and> requests d' = rev (stamp_ids (next_request_id d) (take k rs)) @ requests d
       \<and> collections d' = collections d
       \<and> ops d' = ops d + k + 1"
proof (induction rs arbitrary: d k)
  case Nil
  then show ?case by simp
next
  case (Cons r rs)
  show ?case
  proof (cases k)
    case 0
    with Cons.prems show ?thesis
      by (simp add: requestRepo_Create_def tick_def)
  next
    case (Suc k')
    from Cons.prems Suc have nf: "\<not> fault E (ops d)" by force
    define d1 where "d1 = snd (requestRepo_Create E d r)"
    have c: "requestRepo_Create E d r = (Inr (r\<lparr>r_ID := next_request_id d\<rparr>), d1)"
      using nf by (simp add: d1_def requestRepo_Create_def Let_def)
    have d1: "requests d1 = r\<lparr>r_ID := next_request_id d\<rparr> # requests d" "collections d1 = collections d"
      "next_request_id d1 = next_request_id d + 1" "ops d1 = Suc (ops d)"
      using nf by (simp_all add: d1_def requestRepo_Create_def Let_def tick_def)
    have a: "k' < length rs" using Cons.prems Suc by simp
    have b: "\<forall>j < k'. \<not> fault E (ops d1 + j)"
      using Cons.prems(2) Suc d1(4) by (metis add_Suc_shift Suc_less_eq)
    have f: "fault E (ops d1 + k')" using Cons.prems(3) Suc d1(4) by simp
    from Cons.IH[OF a b f] obtain d' where
      "persist_all E rs d1 = (Some (Wrap ''failed to create request'' (Wrap ''failed to create request'' DBError)), d')"
      "requests d' = rev (stamp_ids (next_request_id d1) (take k' rs)) @ requests d1"
      "collections d' = collections d1" "ops d' = ops d1 + k' + 1"
      by blast
    with c d1 Suc show ?thesis by simp
  qed
qed

lemma record_of_Name: "r_Name (record_of cid an) = item_Name (snd an)"
  by (simp add: record_of_def new_Request_def)

lemma record_of_FolderPath: "r_FolderPath (record_of cid an) = path_of (fst an)"
  by (simp add: record_of_def new_Request_def)

lemma record_of_CollectionID: "r_CollectionID (record_of cid an) = cid"
  by (simp add: record_of_def new_Request_def)

lemma request_leaves_fixture:
  "request_leaves [] fixture_items =
     [([''Auth''], sample_leaf ''Login'' ''POST'' (JStr ''https://example.com/login'')),
      ([''Auth''], sample_leaf ''Logout'' ''POST'' (JObj [(''raw'', JStr ''https://example.com/logout''), (''host'', JArr [JStr ''example'', JStr ''com''])])),
      ([], sample_leaf ''Ping'' ''GET'' (JStr ''https://example.com/a''))]"
  by (simp add: request_leaves_def fixture_items_def new_folder_def sample_leaf_def is_request_leaf_def)

lemma request_leaves_nested:
  "request_leaves [] nested_items =
     [([''Auth'', ''Login''], sample_leaf ''Submit'' ''POST'' (JStr ''https://example.com/login'')),
      ([], sample_leaf ''Ping'' ''GET'' (JStr ''https://example.com/a''))]"
  by (simp add: request_leaves_def nested_items_def new_folder_def sample_leaf_def is_request_leaf_def)

lemma request_leaves_unnamed_folder:
  "request_leaves [] unnamed_folder_items =
     [([[], ''B''], sample_leaf ''Submit'' ''POST'' (JStr ''https://example.com/login''))]"
  by (simp add: request_leaves_def unnamed_folder_items_def new_folder_def sample_leaf_def is_request_leaf_def)

text \<open>
  Claim C1. When the storage accepts the rows, the walk ends without error and has added
  to the table of requests exactly the records of the request leaves of the tree (the
  nodes, at any depth, that have a request and no nested item), one row for each, in the
  order the walk meets them and with their names. A node with nested items is only gone
  into, and a node with neither nested items nor a request gives no row: neither is a
  request leaf.
\<close>

theorem walk_persists_one_record_per_request_leaf:
  assumes "\<forall>k < length (request_leaves anc items). \<not> fault E (ops d + k)"
  shows "\<exists>d'. processPostmanItems E items cid (path_of anc) d = (None, d')
     \<and> requests d' = rev (stamp_ids (next_request_id d) (map (record_of cid) (request_leaves anc items))) @ requests d
     \<and> length (requests d') = length (requests d) + length (request_leaves anc items)
     \<and> map r_Name (rev (take (length (request_leaves anc items)) (requests d')))
         = map (\<lambda>(a, node). item_Name node) (request_leaves anc items)"
proof -
  let ?rs = "map (record_of cid) (request_leaves anc items)"
  from assms have "\<forall>k < length ?rs. \<not> fault E (ops d + k)" by simp
  from persist_all_ok[OF this] obtain d' where
    p: "persist_all E ?rs d = (None, d')"
    and r: "requests d' = rev (stamp_ids (next_request_id d) ?rs) @ requests d"
    by blast
  have n: "map r_Name (stamp_ids (next_request_id d) ?rs) = map (\<lambda>(a, node). item_Name node) (request_leaves anc items)"
    by (simp add: stamp_ids_Name record_of_Name split_def comp_def)
  have t: "take (length (request_leaves anc items)) (requests d') = rev (stamp_ids (next_request_id d) ?rs)"
    by (simp add: r length_stamp_ids)
  from p r n t show ?thesis
    by (simp add: walk_is_persist_all length_stamp_ids)
qed

theorem walk_persists_one_record_per_request_leaf_witness:
  "\<exists>d'. processPostmanItems env0 fixture_items 1 (path_of []) db0 = (None, d')
     \<and> length (requests d') = 3
     \<and> map r_Name (rev (requests d')) = [''Login'', ''Logout'', ''Ping'']"
proof -
  have h: "\<forall>k < length (request_leaves [] fixture_items). \<not> fault env0 (ops db0 + k)"
    by (simp add: env0_def)
  from walk_persists_one_record_per_request_leaf[OF h, of 1] obtain d' where
    "processPostmanItems env0 fixture_items 1 (path_of []) db0 = (None, d')"
    "length (requests d') = length (requests db0) + length (request_leaves [] fixture_items)"
    "map r_Name (rev (take (length (request_leaves [] fixture_items)) (requests d')))
         = map (\<lambda>(a, node). item_Name node) (request_leaves [] fixture_items)"
    by blast
  then show ?thesis
    by (simp add: request_leaves_fixture db0_def sample_leaf_def)
qed

section \<open>Import as a whole\<close>

text \<open>
  The import of a document that decodes and has a name, when the storage accepts the
  collection: the collection row is written first, then the records of the request leaves.
\<close>

lemma import_after_create:
  assumes "Unmarshal_PostmanCollection E bytes = Inr p" "info_Name (pc_Info p) \<noteq> []" "\<not> fault E (ops d)"
  shows "\<exists>d1. ImportPostmanCollection E d bytes =
           (case persist_all E (map (record_of (next_collection_id d)) (request_leaves [] (slice_elems (pc_Item p)))) d1 of
              (Some err, d2) \<Rightarrow> (Inl err, d2)
            | (None, d2) \<Rightarrow> (Inr (next_collection_id d), d2))
         \<and> collections d1 = (new_Collection p)\<lparr>c_ID := next_collection_id d\<rparr> # collections d
         \<and> requests d1 = requests d
         \<and> next_request_id d1 = next_request_id d
         \<and> ops d1 = Suc (ops d)"
proof -
  define d1 where "d1 = snd (collectionRepo_Create E d (new_Collection p))"
  have c: "collectionRepo_Create E d (new_Collection p) = (Inr ((new_Collection p)\<lparr>c_ID := next_collection_id d\<rparr>), d1)"
    using assms(3) by (simp add: d1_def collectionRepo_Create_def Let_def)
  have d1: "collections d1 = (new_Collection p)\<lparr>c_ID := next_collection_id d\<rparr> # collections d"
    "requests d1 = requests d" "next_request_id d1 = next_request_id d" "ops d1 = Suc (ops d)"
    using assms(3) by (simp_all add: d1_def collectionRepo_Create_def Let_def tick_def)
  have w: "processPostmanItems E (slice_elems (pc_Item p)) (next_collection_id d) [] d1
         = persist_all E (map (record_of (next_collection_id d)) (request_leaves [] (slice_elems (pc_Item p)))) d1"
    using walk_is_persist_all[of E "slice_elems (pc_Item p)" "next_collection_id d" "[]" d1]
    by (simp add: path_of_Nil)
  have "ImportPostmanCollection E d bytes =
           (case persist_all E (map (record_of (next_collection_id d)) (request_leaves [] (slice_elems (pc_Item p)))) d1 of
              (Some err, d2) \<Rightarrow> (Inl err, d2)
            | (None, d2) \<Rightarrow> (Inr (next_collection_id d), d2))"
    using assms(1,2) c w by (simp add: ImportPostmanCollection_def split: prod.splits option.splits)
  with d1 show ?thesis by blast
qed

text \<open>
  Claim C6. When the storage accepts the collection and the first \<open>N - 1\<close> records and
  refuses the \<open>N\<close>th, the import returns the error of that call, wrapped; the collection row
  and the rows of the first \<open>N - 1\<close> records are in the storage, and the storage has
  received no call after the one that failed (one call for the collection and \<open>N\<close> for the
  records), so that the rest of the walk is not done.
\<close>

theorem import_keeps_rows_written_before_failure:
  assumes "Unmarshal_PostmanCollection E bytes = Inr p"
    and "info_Name (pc_Info p) \<noteq> []"
    and "rows = map (record_of (next_collection_id d)) (request_leaves [] (slice_elems (pc_Item p)))"
    and "0 < N" and "N \<le> length rows"
    and "\<forall>j < N. \<not> fault E (ops d + j)"
    and "fault E (ops d + N)"
  shows "\<exists>d'. ImportPostmanCollection E d bytes =
            (Inl (Wrap ''failed to create request'' (Wrap ''failed to create request'' DBError)), d')
       \<and> collections d' = (new_Collection p)\<lparr>c_ID := next_collection_id d\<rparr> # collections d
       \<and> requests d' = rev (stamp_ids (next_request_id d) (take (N - 1) rows)) @ requests d
       \<and> ops d' = ops d + N + 1"
proof -
  from assms(4,6) have nf: "\<not> fault E (ops d)" by force
  from import_after_create[OF assms(1,2) nf] obtain d1 where
    i: "ImportPostmanCollection E d bytes =
           (case persist_all E rows d1 of
              (Some err, d2) \<Rightarrow> (Inl err, d2)
            | (None, d2) \<Rightarrow> (Inr (next_collection_id d), d2))"
    and d1: "collections d1 = (new_Collection p)\<lparr>c_ID := next_collection_id d\<rparr> # collections d"
      "requests d1 = requests d" "next_request_id d1 = next_request_id d" "ops d1 = Suc (ops d)"
    using assms(3) by blast
  have a: "N - 1 < length rows" using assms(4,5) by simp
  have b: "\<forall>j < N - 1. \<not> fault E (ops d1 + j)"
  proof (intro allI impI)
    fix j assume "j < N - 1"
    then have "Suc j < N" by simp
    with assms(6) have "\<not> fault E (ops d + Suc j)" by blast
    then show "\<not> fault E (ops d1 + j)" by (simp add: d1(4))
  qed
  have f: "fault E (ops d1 + (N - 1))" using assms(4,7) by (simp add: d1(4))
  from persist_all_fail[OF a b f] obtain d' where
    "persist_all E rows d1 = (Some (Wrap ''failed to create request'' (Wrap ''failed to create request'' DBError)), d')"
    "requests d' = rev (stamp_ids (next_request_id d1) (take (N - 1) rows)) @ requests d1"
    "collections d' = collections d1" "ops d' = ops d1 + (N - 1) + 1"
    by blast
  with i d1 assms(4) show ?thesis by simp
qed

theorem import_keeps_rows_written_before_failure_witness:
  "\<exists>d'. ImportPostmanCollection
           (env0\<lparr>Unmarshal_PostmanCollection := (\<lambda>bytes. Inr (sample_doc fixture_items)), fault := (\<lambda>n. n = 2)\<rparr>)
           db0 ''{}''
         = (Inl (Wrap ''failed to create request'' (Wrap ''failed to create request'' DBError)), d')
       \<and> map c_Name (collections d') = [''Demo'']
       \<and> map r_Name (requests d') = [''Login'']
       \<and> ops d' = 3"
proof -
  let ?E = "env0\<lparr>Unmarshal_PostmanCollection := (\<lambda>bytes. Inr (sample_doc fixture_items)), fault := (\<lambda>n. n = 2)\<rparr>"
  let ?rows = "map (record_of (next_collection_id db0)) (request_leaves [] (slice_elems (pc_Item (sample_doc fixture_items))))"
  have h1: "Unmarshal_PostmanCollection ?E ''{}'' = Inr (sample_doc fixture_items)" by simp
  have h2: "info_Name (pc_Info (sample_doc fixture_items)) \<noteq> []" by (simp add: sample_doc_def)
  have h3: "?rows = ?rows" by simp
  have h4: "0 < (2::nat)" by simp
  have h5: "2 \<le> length ?rows"
    by (simp add: sample_doc_def slice_elems_def request_leaves_fixture)
  have h6: "\<forall>j < 2. \<not> fault ?E (ops db0 + j)" by (simp add: db0_def)
  have h7: "fault ?E (ops db0 + 2)" by (simp add: db0_def)
  from import_keeps_rows_written_before_failure[OF h1 h2 h3 h4 h5 h6 h7] obtain d' where
    "ImportPostmanCollection ?E db0 ''{}''
         = (Inl (Wrap ''failed to create request'' (Wrap ''failed to create request'' DBError)), d')"
    "collections d' = (new_Collection (sample_doc fixture_items))\<lparr>c_ID := next_collection_id db0\<rparr> # collections db0"
    "requests d' = rev (stamp_ids (next_request_id db0) (take (2 - 1) ?rows)) @ requests db0"
    "ops d' = ops db0 + 2 + 1"
    by blast
  then show ?thesis
    by (simp add: db0_def sample_doc_def slice_elems_def request_leaves_fixture new_Collection_def
        record_of_Name sample_leaf_def)
qed

section \<open>Folder paths\<close>

lemma join_slash_Cons: "join_slash (a # as) = a @ concat (map (\<lambda>s. CHR ''/'' # s) as)"
  by (induction as arbitrary: a) simp_all

lemma foldl_currentPath:
  "foldl currentPath_of p anc =
     (if p = [] then join_slash (dropWhile (\<lambda>s. s = []) anc)
      else p @ concat (map (\<lambda>s. CHR ''/'' # s) anc))"
proof (induction anc arbitrary: p)
  case Nil
  show ?case by simp
next
  case (Cons a as)
  have step: "foldl currentPath_of p (a # as) = foldl currentPath_of (currentPath_of p a) as"
    by simp
  show ?case
  proof (cases "p = []")
    case True
    then have c: "currentPath_of p a = a" by (simp add: currentPath_of_def)
    show ?thesis
    proof (cases "a = []")
      case True
      with \<open>p = []\<close> c show ?thesis unfolding step by (simp add: Cons.IH)
    next
      case False
      with \<open>p = []\<close> c show ?thesis unfolding step by (simp add: Cons.IH join_slash_Cons)
    qed
  next
    case False
    then have c: "currentPath_of p a = p @ ''/'' @ a" by (simp add: currentPath_of_def)
    with False show ?thesis unfolding step by (simp add: Cons.IH)
  qed
qed

lemma path_of_join: "path_of anc = join_slash (dropWhile (\<lambda>s. s = []) anc)"
  by (simp add: path_of_def foldl_currentPath)

lemma dropWhile_no_empty: "[] \<notin> set anc \<Longrightarrow> dropWhile (\<lambda>s. s = []) anc = anc"
  by (cases anc) auto

lemma join_slash_edges:
  "anc \<noteq> [] \<Longrightarrow> \<forall>s \<in> set anc. s \<noteq> [] \<Longrightarrow>
   join_slash anc \<noteq> [] \<and> hd (join_slash anc) = hd (hd anc) \<and> last (join_slash anc) = last (last anc)"
proof (induction anc rule: join_slash.induct)
  case 1
  then show ?case by simp
next
  case (2 name)
  then show ?case by simp
next
  case (3 name v va)
  then show ?case by (simp add: hd_append)
qed

lemma join_slash_no_edge_slash:
  assumes "\<forall>s \<in> set anc. s \<noteq> [] \<and> no_edge_slash s"
  shows "no_edge_slash (join_slash anc)"
proof (cases "anc = []")
  case True
  then show ?thesis by (simp add: no_edge_slash_def)
next
  case False
  with assms have e: "join_slash anc \<noteq> [] \<and> hd (join_slash anc) = hd (hd anc) \<and> last (join_slash anc) = last (last anc)"
    by (intro join_slash_edges) auto
  from False have "hd anc \<in> set anc" "last anc \<in> set anc" by simp_all
  with assms have "hd anc \<noteq> [] \<and> no_edge_slash (hd anc)" "last anc \<noteq> [] \<and> no_edge_slash (last anc)"
    by blast+
  with e show ?thesis by (auto simp: no_edge_slash_def)
qed

text \<open>
  Claim C4, as stated, fails: a request in a folder \<^verbatim>\<open>B\<close> inside a folder with the empty
  name has the ancestors \<open>['''', ''B'']\<close>, whose slash-joined sequence is \<^verbatim>\<open>/B\<close>, and the
  walk gives it the folder path \<^verbatim>\<open>B\<close>.
\<close>

theorem folder_path_slash_join_counterexample:
  "\<exists>d'. processPostmanItems env0 unnamed_folder_items 1 [] db0 = (None, d')
     \<and> map fst (request_leaves [] unnamed_folder_items) = [[[], ''B'']]
     \<and> map r_FolderPath (requests d') = [''B'']
     \<and> map (\<lambda>(a, node). join_slash a) (request_leaves [] unnamed_folder_items) = [''/B'']
     \<and> map r_FolderPath (requests d') \<noteq> map (\<lambda>(a, node). join_slash a) (request_leaves [] unnamed_folder_items)"
proof -
  have h: "\<forall>k < length (map (record_of 1) (request_leaves [] unnamed_folder_items)). \<not> fault env0 (ops db0 + k)"
    by (simp add: env0_def)
  from persist_all_ok[OF h] obtain d' where
    "persist_all env0 (map (record_of 1) (request_leaves [] unnamed_folder_items)) db0 = (None, d')"
    "requests d' = rev (stamp_ids (next_request_id db0) (map (record_of 1) (request_leaves [] unnamed_folder_items))) @ requests db0"
    by blast
  then have "processPostmanItems env0 unnamed_folder_items 1 [] db0 = (None, d')"
    "map r_FolderPath (requests d') = [''B'']"
    using walk_is_persist_all[of env0 unnamed_folder_items 1 "[]" db0]
    by (simp_all add: path_of_Nil request_leaves_unnamed_folder db0_def record_of_FolderPath path_of_join)
  then show ?thesis
    by (simp add: request_leaves_unnamed_folder)
qed

text \<open>
  Claim C4, amended. When the storage accepts the rows, the folder path of the row of each
  request leaf is the slash-joined sequence of the names of its ancestor folders, outermost
  first and without the leaf's own name, once the empty names at its front are dropped
  (the walk puts a slash before a name only when the path so far is not empty). When no
  ancestor folder has an empty name it is the slash-joined sequence of all the ancestor
  names; when moreover no ancestor name begins or ends with a slash, it has no leading and
  no trailing slash. A leaf under \<^verbatim>\<open>Auth\<close> then \<^verbatim>\<open>Login\<close> gets \<^verbatim>\<open>Auth/Login\<close>, a leaf at the
  root gets the empty string.
\<close>

theorem leaf_folder_path:
  assumes "\<forall>k < length (request_leaves [] items). \<not> fault E (ops d + k)"
  shows "\<exists>d' rows. processPostmanItems E items cid [] d = (None, d')
      \<and> requests d' = rev rows @ requests d
      \<and> map r_FolderPath rows
          = map (\<lambda>(a, node). join_slash (dropWhile (\<lambda>s. s = []) a)) (request_leaves [] items)
      \<and> ((\<forall>(a, node) \<in> set (request_leaves [] items). [] \<notin> set a)
           \<longrightarrow> map r_FolderPath rows = map (\<lambda>(a, node). join_slash a) (request_leaves [] items))
      \<and> ((\<forall>(a, node) \<in> set (request_leaves [] items). \<forall>s \<in> set a. s \<noteq> [] \<and> no_edge_slash s)
           \<longrightarrow> (\<forall>r \<in> set rows. no_edge_slash (r_FolderPath r)))"
proof -
  let ?ls = "request_leaves [] items"
  let ?rs = "map (record_of cid) ?ls"
  let ?rows = "stamp_ids (next_request_id d) ?rs"
  from assms have "\<forall>k < length ?rs. \<not> fault E (ops d + k)" by simp
  from persist_all_ok[OF this] obtain d' where
    p: "persist_all E ?rs d = (None, d')" and r: "requests d' = rev ?rows @ requests d"
    by blast
  have w: "processPostmanItems E items cid [] d = (None, d')"
    using p walk_is_persist_all[of E items cid "[]" d] by (simp add: path_of_Nil)
  have fp: "map r_FolderPath ?rows = map (\<lambda>(a, node). join_slash (dropWhile (\<lambda>s. s = []) a)) ?ls"
    by (simp add: stamp_ids_FolderPath record_of_FolderPath path_of_join split_def comp_def)
  have plain: "(\<forall>(a, node) \<in> set ?ls. [] \<notin> set a)
           \<longrightarrow> map r_FolderPath ?rows = map (\<lambda>(a, node). join_slash a) ?ls"
    by (auto simp: fp dropWhile_no_empty)
  have edges: "(\<forall>(a, node) \<in> set ?ls. \<forall>s \<in> set a. s \<noteq> [] \<and> no_edge_slash s)
           \<longrightarrow> (\<forall>r \<in> set ?rows. no_edge_slash (r_FolderPath r))"
  proof (intro impI ballI)
    fix r
    assume ok: "\<forall>(a, node) \<in> set ?ls. \<forall>s \<in> set a. s \<noteq> [] \<and> no_edge_slash s" and "r \<in> set ?rows"
    then have "r_FolderPath r \<in> set (map r_FolderPath ?rows)" by simp
    then obtain a node where an: "(a, node) \<in> set ?ls" and e: "r_FolderPath r = join_slash (dropWhile (\<lambda>s. s = []) a)"
      unfolding fp by auto
    from ok an have s: "\<forall>s \<in> set a. s \<noteq> [] \<and> no_edge_slash s" by blast
    then have "[] \<notin> set a" by blast
    then have "dropWhile (\<lambda>s. s = []) a = a" by (rule dropWhile_no_empty)
    with e join_slash_no_edge_slash[OF s] show "no_edge_slash (r_FolderPath r)" by simp
  qed
  from w r fp plain edges show ?thesis by blast
qed

theorem leaf_folder_path_witness:
  "\<exists>d'. processPostmanItems env0 nested_items 1 [] db0 = (None, d')
     \<and> map r_FolderPath (requests d') = ['''', ''Auth/Login'']"
proof -
  have h: "\<forall>k < length (request_leaves [] nested_items). \<not> fault env0 (ops db0 + k)"
    by (simp add: env0_def)
  from leaf_folder_path[OF h, of 1] obtain d' rows where
    a: "processPostmanItems env0 nested_items 1 [] db0 = (None, d')"
    and b: "requests d' = rev rows @ requests db0"
    and c: "(\<forall>(a, node) \<in> set (request_leaves [] nested_items). [] \<notin> set a)
           \<longrightarrow> map r_FolderPath rows = map (\<lambda>(a, node). join_slash a) (request_leaves [] nested_items)"
    by blast
  have "\<forall>(a, node) \<in> set (request_leaves [] nested_items). [] \<notin> set a"
    by (simp add: request_leaves_nested)
  with c have "map r_FolderPath rows = map (\<lambda>(a, node). join_slash a) (request_leaves [] nested_items)"
    by blast
  then have "map r_FolderPath rows = [''Auth/Login'', '''']"
    by (simp add: request_leaves_nested)
  with a b show ?thesis
    by (simp add: db0_def rev_map[symmetric])
qed

section \<open>Export: the cached tree\<close>

lemma cached_items_None: "cached_items E collection = None"
  by (cases "c_Items collection")
     (simp_all add: cached_items_def len_JSONMap_def marshal_JSONMap_def unmarshal_slice_def)

lemma export_document_rebuilds:
  "export_document E d ident =
     (case collectionRepo_GetByID E d ident of
        (Inl err, d1) \<Rightarrow> (Inl (Wrap ''failed to get collection'' err), d1)
      | (Inr collection, d1) \<Rightarrow>
          (case requestRepo_ListByCollectionID E d1 ident 0 1000 of
             (Inl err, d2) \<Rightarrow> (Inl (Wrap ''failed to get requests'' err), d2)
           | (Inr reqs, d2) \<Rightarrow>
               (Inr (with_metadata E collection ((new_PostmanCollection collection)\<lparr>pc_Item := build_items E reqs\<rparr>)), d2)))"
  by (simp add: export_document_def cached_items_None split: prod.splits sum.splits)

text \<open>
  Claim C10. The export never returns the cached tree: \<open>cached_items\<close> is \<open>None\<close> for
  every collection, so that every export goes through the listing of the requests and
  \<open>build_items\<close>. On import the encoding of a (non-nil) item slice is an array, which does
  not decode into a \<^verbatim>\<open>JSONMap\<close>, and the encoding of a nil slice is \<^verbatim>\<open>null\<close>, which leaves
  the map nil: the cache of an imported collection is nil. On export the encoding of a
  non-nil \<^verbatim>\<open>JSONMap\<close> is an object, which does not decode into a slice of items, whatever
  the decoder of the elements.
\<close>

theorem export_never_returns_cached_items:
  "cached_items E collection = None
   \<and> c_Items (new_Collection p) = None
   \<and> (\<forall>xs. unmarshal_JSONMap (marshal_PostmanItems (Some xs)) None = (Some UnmarshalTypeError, None))
   \<and> unmarshal_JSONMap (marshal_PostmanItems None) None = (None, None)
   \<and> (\<forall>kvs. unmarshal_slice (dec_PostmanItems E) (marshal_JSONMap (Some kvs)) None
               = (Some UnmarshalTypeError, None))
   \<and> export_document E d ident =
       (case collectionRepo_GetByID E d ident of
          (Inl err, d1) \<Rightarrow> (Inl (Wrap ''failed to get collection'' err), d1)
        | (Inr collection, d1) \<Rightarrow>
            (case requestRepo_ListByCollectionID E d1 ident 0 1000 of
               (Inl err, d2) \<Rightarrow> (Inl (Wrap ''failed to get requests'' err), d2)
             | (Inr reqs, d2) \<Rightarrow>
                 (Inr (with_metadata E collection ((new_PostmanCollection collection)\<lparr>pc_Item := build_items E reqs\<rparr>)), d2)))"
proof -
  have a: "c_Items (new_Collection p) = None"
    by (cases "pc_Item p")
       (simp_all add: new_Collection_def marshal_PostmanItems_def unmarshal_JSONMap_def)
  have b: "\<forall>xs. unmarshal_JSONMap (marshal_PostmanItems (Some xs)) None = (Some UnmarshalTypeError, None)"
    by (simp add: marshal_PostmanItems_def unmarshal_JSONMap_def)
  have c: "unmarshal_JSONMap (marshal_PostmanItems None) None = (None, None)"
    by (simp add: marshal_PostmanItems_def unmarshal_JSONMap_def)
  have e: "\<forall>kvs. unmarshal_slice (dec_PostmanItems E) (marshal_JSONMap (Some kvs)) None
               = (Some UnmarshalTypeError, None)"
    by (simp add: marshal_JSONMap_def unmarshal_slice_def)
  from a b c e cached_items_None[of E collection] export_document_rebuilds[of E d ident]
  show ?thesis by blast
qed

section \<open>Export: the rebuilt tree\<close>

lemma export_document_ok:
  assumes "\<not> fault E (ops d)" "\<not> fault E (Suc (ops d))"
    and "find (\<lambda>c. c_ID c = ident) (collections d) = Some c"
  shows "export_document E d ident =
     (Inr (with_metadata E (scan_Collection c)
        ((new_PostmanCollection (scan_Collection c))\<lparr>pc_Item :=
           build_items E (map scan_Request (take 1000 (filter (\<lambda>r. r_CollectionID r = ident) (requests d))))\<rparr>)),
      tick (tick d))"
  using assms
  by (simp add: export_document_rebuilds collectionRepo_GetByID_def requestRepo_ListByCollectionID_def tick_def)

lemma with_metadata_Item: "pc_Item (with_metadata E c p) = pc_Item p"
  by (simp add: with_metadata_def)

lemma with_metadata_Schema: "pc_Schema (with_metadata E c p) = pc_Schema p"
  by (simp add: with_metadata_def)

lemma build_items_Nil: "build_items E [] = None"
  by (simp add: build_items_def folderMap_of_def range_map_def)

text \<open>
  Claim C9 fails on the code. For an existing collection with no request, when the storage
  answers, the export returns a document whose \<^verbatim>\<open>schema\<close> member is the fixed URI, whatever
  schema is stored, and whose \<^verbatim>\<open>item\<close> member is \<^verbatim>\<open>null\<close>, not the empty array: the root
  item list is read from a key the folder map does not have, which is the nil slice, and
  nothing is appended to it.
\<close>

theorem export_of_empty_collection:
  assumes "\<not> fault E (ops d)" "\<not> fault E (Suc (ops d))"
    and "find (\<lambda>c. c_ID c = ident) (collections d) = Some c"
    and "filter (\<lambda>r. r_CollectionID r = ident) (requests d) = []"
  shows "\<exists>members d'. ExportPostmanCollection E d ident = (Inr (JObj members), d')
       \<and> map_of members ''item'' = Some JNull
       \<and> map_of members ''item'' \<noteq> Some (JArr [])
       \<and> map_of members ''schema'' = Some (JStr ''https://schema.getpostman.com/json/collection/v2.1.0/collection.json'')"
proof -
  let ?p = "with_metadata E (scan_Collection c)
        ((new_PostmanCollection (scan_Collection c))\<lparr>pc_Item := build_items E []\<rparr>)"
  have e: "export_document E d ident = (Inr ?p, tick (tick d))"
    using export_document_ok[OF assms(1,2,3)] assms(4) by simp
  have i: "pc_Item ?p = None" by (simp add: with_metadata_Item build_items_Nil)
  have s: "pc_Schema ?p = ''https://schema.getpostman.com/json/collection/v2.1.0/collection.json''"
    by (simp add: with_metadata_Schema new_PostmanCollection_def)
  obtain members where m: "marshal_PostmanCollection ?p = JObj members"
    and mi: "map_of members ''item'' = Some (marshal_PostmanItems (pc_Item ?p))"
    and ms: "map_of members ''schema'' = (if pc_Schema ?p = [] then None else Some (JStr (pc_Schema ?p)))"
    by (simp add: marshal_PostmanCollection_def omitempty_slice_def omitempty_raw_def omitempty_string_def
        split: option.splits)
  from e m have "ExportPostmanCollection E d ident = (Inr (JObj members), tick (tick d))"
    by (simp add: ExportPostmanCollection_def)
  moreover from mi i have "map_of members ''item'' = Some JNull"
    by (simp add: marshal_PostmanItems_def)
  moreover from ms s have "map_of members ''schema'' = Some (JStr ''https://schema.getpostman.com/json/collection/v2.1.0/collection.json'')"
    by simp
  ultimately show ?thesis by auto
qed

theorem export_of_empty_collection_witness:
  "\<exists>members d'. ExportPostmanCollection env0 demo_db 1 = (Inr (JObj members), d')
       \<and> map_of members ''item'' = Some JNull
       \<and> map_of members ''item'' \<noteq> Some (JArr [])
       \<and> map_of members ''schema'' = Some (JStr ''https://schema.getpostman.com/json/collection/v2.1.0/collection.json'')"
proof -
  have h1: "\<not> fault env0 (ops demo_db)" by (simp add: env0_def)
  have h2: "\<not> fault env0 (Suc (ops demo_db))" by (simp add: env0_def)
  have h3: "find (\<lambda>c. c_ID c = 1) (collections demo_db) = Some demo_collection"
    by (simp add: demo_db_def demo_collection_def)
  have h4: "filter (\<lambda>r. r_CollectionID r = 1) (requests demo_db) = []"
    by (simp add: demo_db_def)
  show ?thesis by (rule export_of_empty_collection[OF h1 h2 h3 h4])
qed

section \<open>Export: the folders\<close>

lemma folderMap_get_update:
  "folderMap_get (AList.update q v acc) p = (if p = q then v else folderMap_get acc p)"
  by (simp add: folderMap_get_def update_conv')

lemma folderMap_fold_get:
  "folderMap_get
     (fold (\<lambda>req folderMap.
              AList.update (r_FolderPath req) (folderMap_get folderMap (r_FolderPath req) @ [item_of E req]) folderMap)
           reqs acc) p
   = folderMap_get acc p @ map (item_of E) (filter (\<lambda>r. r_FolderPath r = p) reqs)"
  by (induction reqs arbitrary: acc) (simp_all add: folderMap_get_update)

lemma folderMap_fold_keys:
  "fst ` set
     (fold (\<lambda>req folderMap.
              AList.update (r_FolderPath req) (folderMap_get folderMap (r_FolderPath req) @ [item_of E req]) folderMap)
           reqs acc)
   = fst ` set acc \<union> r_FolderPath ` set reqs"
  by (induction reqs arbitrary: acc) (auto simp: dom_update)

lemma folderMap_fold_distinct:
  "distinct (map fst acc) \<Longrightarrow>
   distinct (map fst
     (fold (\<lambda>req folderMap.
              AList.update (r_FolderPath req) (folderMap_get folderMap (r_FolderPath req) @ [item_of E req]) folderMap)
           reqs acc))"
  by (induction reqs arbitrary: acc) (simp_all add: distinct_update)

lemma folderMap_of_get:
  "folderMap_get (folderMap_of E reqs) p = map (item_of E) (filter (\<lambda>r. r_FolderPath r = p) reqs)"
  by (simp add: folderMap_of_def folderMap_fold_get) (simp add: folderMap_get_def)

lemma folderMap_of_keys: "fst ` set (folderMap_of E reqs) = r_FolderPath ` set reqs"
  by (simp add: folderMap_of_def folderMap_fold_keys)

lemma folderMap_of_distinct: "distinct (map fst (folderMap_of E reqs))"
  by (simp add: folderMap_of_def folderMap_fold_distinct)

lemma folderMap_of_entry:
  assumes "(p, its) \<in> set (folderMap_of E reqs)"
  shows "its = map (item_of E) (filter (\<lambda>r. r_FolderPath r = p) reqs)"
proof -
  from assms folderMap_of_distinct[of E reqs] have "map_of (folderMap_of E reqs) p = Some its"
    by simp
  then have "folderMap_get (folderMap_of E reqs) p = its"
    by (simp add: folderMap_get_def)
  then show ?thesis by (simp add: folderMap_of_get)
qed

lemma distinct_map_insort_key:
  "distinct (map g (insort_key f x xs)) = (g x \<notin> g ` set xs \<and> distinct (map g xs))"
  by (induction xs) (auto simp: set_insort_key)

lemma distinct_map_sort_key: "distinct (map g (sort_key f xs)) = distinct (map g xs)"
  by (induction xs) (simp_all add: distinct_map_insort_key)

lemma set_range_map: "set (range_map E m) = set m"
  by (simp add: range_map_def)

lemma distinct_range_map: "distinct (map fst (range_map E m)) = distinct (map fst m)"
  by (simp add: range_map_def distinct_map_sort_key)

lemma build_fold:
  "slice_elems
     (fold (\<lambda>(path, items) root.
              if path = [] then root else Some (slice_elems root @ [new_folder path items]))
           xs root)
   = slice_elems root @ map (\<lambda>(path, items). new_folder path items) (filter (\<lambda>(path, items). path \<noteq> []) xs)"
  by (induction xs arbitrary: root) (auto simp: slice_elems_def)

lemma build_items_shape:
  "\<exists>ps. distinct ps
      \<and> set ps = r_FolderPath ` set reqs - {[]}
      \<and> slice_elems (build_items E reqs) =
          map (item_of E) (filter (\<lambda>r. r_FolderPath r = []) reqs)
          @ map (\<lambda>path. new_folder path (map (item_of E) (filter (\<lambda>r. r_FolderPath r = path) reqs))) ps"
proof -
  let ?fm = "folderMap_of E reqs"
  let ?xs = "filter (\<lambda>(path, items). path \<noteq> []) (range_map E ?fm)"
  let ?ps = "map fst ?xs"
  have tops: "slice_elems (map_of ?fm []) = map (item_of E) (filter (\<lambda>r. r_FolderPath r = []) reqs)"
    using folderMap_of_get[of E reqs "[]"] by (simp add: folderMap_get_def slice_elems_def)
  have d: "distinct ?ps"
  proof -
    have "distinct (map fst (range_map E ?fm))"
      by (simp only: distinct_range_map folderMap_of_distinct)
    then show ?thesis by (rule distinct_map_filter)
  qed
  have "set ?ps = fst ` set ?fm - {[]}"
  proof (rule set_eqI)
    fix q
    show "q \<in> set ?ps \<longleftrightarrow> q \<in> fst ` set ?fm - {[]}"
      by (force simp: set_range_map)
  qed
  then have s: "set ?ps = r_FolderPath ` set reqs - {[]}"
    by (simp only: folderMap_of_keys)
  have "\<forall>x \<in> set ?xs. (\<lambda>(path, items). new_folder path items) x
          = new_folder (fst x) (map (item_of E) (filter (\<lambda>r. r_FolderPath r = fst x) reqs))"
  proof
    fix x assume "x \<in> set ?xs"
    then have "(fst x, snd x) \<in> set ?fm" by (simp add: set_range_map)
    then have "snd x = map (item_of E) (filter (\<lambda>r. r_FolderPath r = fst x) reqs)"
      by (rule folderMap_of_entry)
    then show "(\<lambda>(path, items). new_folder path items) x
          = new_folder (fst x) (map (item_of E) (filter (\<lambda>r. r_FolderPath r = fst x) reqs))"
      by (simp add: split_def)
  qed
  then have "map (\<lambda>(path, items). new_folder path items) ?xs
         = map (\<lambda>x. new_folder (fst x) (map (item_of E) (filter (\<lambda>r. r_FolderPath r = fst x) reqs))) ?xs"
    unfolding map_eq_conv .
  then have f: "map (\<lambda>(path, items). new_folder path items) ?xs
         = map (\<lambda>path. new_folder path (map (item_of E) (filter (\<lambda>r. r_FolderPath r = path) reqs))) ?ps"
    by (simp only: map_map comp_def)
  have "slice_elems (build_items E reqs) = slice_elems (map_of ?fm []) @ map (\<lambda>(path, items). new_folder path items) ?xs"
    unfolding build_items_def Let_def by (rule build_fold)
  with tops f have "slice_elems (build_items E reqs) =
          map (item_of E) (filter (\<lambda>r. r_FolderPath r = []) reqs)
          @ map (\<lambda>path. new_folder path (map (item_of E) (filter (\<lambda>r. r_FolderPath r = path) reqs))) ?ps"
    by simp
  with d s show ?thesis by blast
qed

lemma scan_Request_fields:
  "r_Name (scan_Request r) = r_Name r" "r_FolderPath (scan_Request r) = r_FolderPath r"
  "r_Method (scan_Request r) = r_Method r" "r_CollectionID (scan_Request r) = r_CollectionID r"
  by (simp_all add: scan_Request_def)

lemma item_of_Name: "item_Name (item_of E r) = r_Name r"
  by (simp add: item_of_def)

lemma distinct_set_singleton:
  assumes "set ps = {x}" "distinct ps"
  shows "ps = [x]"
proof (cases ps)
  case Nil
  with assms show ?thesis by simp
next
  case (Cons a as)
  with assms have "a = x" "set as \<subseteq> {x}" "a \<notin> set as" by auto
  then have "as = []" by (cases as) auto
  with Cons \<open>a = x\<close> show ?thesis by simp
qed

text \<open>
  Claim C8 fails on the code. The export is to rebuild the tree from all the request
  records of the collection; it asks the storage for the thousand newest only (offset 0,
  limit 1000) and gives no sign of the rest. In the collection of \<open>crowded_db\<close> the oldest
  of 1001 requests is the only one of the folder \<^verbatim>\<open>X\<close>: the export succeeds, its root
  list has the thousand other requests and no folder item named \<^verbatim>\<open>X\<close>.
\<close>

theorem export_misses_folder_beyond_listing:
  "(\<exists>r \<in> set (requests crowded_db). r_CollectionID r = 1 \<and> r_FolderPath r = ''X'')
   \<and> (\<exists>p d'. export_document env0 crowded_db 1 = (Inr p, d')
          \<and> length (slice_elems (pc_Item p)) = 1000
          \<and> ''X'' \<notin> set (map item_Name (slice_elems (pc_Item p))))"
proof -
  have a: "\<exists>r \<in> set (requests crowded_db). r_CollectionID r = 1 \<and> r_FolderPath r = ''X''"
    by (simp add: crowded_db_def sample_row_def)
  have h1: "\<not> fault env0 (ops crowded_db)" by (simp add: env0_def)
  have h2: "\<not> fault env0 (Suc (ops crowded_db))" by (simp add: env0_def)
  have h3: "find (\<lambda>c. c_ID c = 1) (collections crowded_db) = Some demo_collection"
    by (simp add: crowded_db_def demo_collection_def)
  let ?reqs = "map scan_Request (take 1000 (filter (\<lambda>r. r_CollectionID r = 1) (requests crowded_db)))"
  have l: "?reqs = replicate 1000 (scan_Request (sample_row ''Ping'' []))"
    by (simp add: crowded_db_def sample_row_def)
  from build_items_shape[of ?reqs env0] obtain ps where
    ps: "set ps = r_FolderPath ` set ?reqs - {[]}"
    and sh: "slice_elems (build_items env0 ?reqs) =
          map (item_of env0) (filter (\<lambda>r. r_FolderPath r = []) ?reqs)
          @ map (\<lambda>path. new_folder path (map (item_of env0) (filter (\<lambda>r. r_FolderPath r = path) ?reqs))) ps"
    by blast
  from ps have "ps = []"
    unfolding l by (simp add: scan_Request_fields sample_row_def)
  with sh have "slice_elems (build_items env0 ?reqs) = replicate 1000 (item_of env0 (scan_Request (sample_row ''Ping'' [])))"
    unfolding l by (simp add: scan_Request_fields sample_row_def)
  then have "length (slice_elems (build_items env0 ?reqs)) = 1000"
    "''X'' \<notin> set (map item_Name (slice_elems (build_items env0 ?reqs)))"
    by (simp_all add: item_of_Name scan_Request_fields sample_row_def)
  with export_document_ok[OF h1 h2 h3] a show ?thesis
    by (simp add: with_metadata_Item)
qed

text \<open>
  Over the requests that the listing returns the rebuilt tree is as expected, whatever the
  order in which the folder map is visited. When the storage answers, the root item list
  is the items of the listed requests whose folder path is empty, followed by one folder
  item for each distinct non-empty folder path among the listed requests: the folder's
  name is the whole path (for \<^verbatim>\<open>A/B\<close> one folder named \<^verbatim>\<open>A/B\<close>), it has no request, and its
  nested items are the items of the listed requests of that path.
\<close>

theorem export_folder_per_listed_path:
  assumes "\<not> fault E (ops d)" "\<not> fault E (Suc (ops d))"
    and "find (\<lambda>c. c_ID c = ident) (collections d) = Some c"
    and "reqs = map scan_Request (take 1000 (filter (\<lambda>r. r_CollectionID r = ident) (requests d)))"
  shows "\<exists>p d' ps. export_document E d ident = (Inr p, d')
      \<and> distinct ps
      \<and> set ps = r_FolderPath ` set reqs - {[]}
      \<and> slice_elems (pc_Item p) =
          map (item_of E) (filter (\<lambda>r. r_FolderPath r = []) reqs)
          @ map (\<lambda>path. PostmanItem path [] (map (item_of E) (filter (\<lambda>r. r_FolderPath r = path) reqs))
                          None [] [] [] None []) ps"
proof -
  let ?p = "with_metadata E (scan_Collection c)
              ((new_PostmanCollection (scan_Collection c))\<lparr>pc_Item := build_items E reqs\<rparr>)"
  have e: "export_document E d ident = (Inr ?p, tick (tick d))"
    using export_document_ok[OF assms(1,2,3)] by (simp only: assms(4))
  have i: "pc_Item ?p = build_items E reqs"
    by (simp add: with_metadata_Item)
  from build_items_shape[of reqs E] obtain ps where
    ps: "distinct ps" "set ps = r_FolderPath ` set reqs - {[]}"
    "slice_elems (build_items E reqs) =
          map (item_of E) (filter (\<lambda>r. r_FolderPath r = []) reqs)
          @ map (\<lambda>path. new_folder path (map (item_of E) (filter (\<lambda>r. r_FolderPath r = path) reqs))) ps"
    by blast
  have "slice_elems (pc_Item ?p) =
          map (item_of E) (filter (\<lambda>r. r_FolderPath r = []) reqs)
          @ map (\<lambda>path. PostmanItem path [] (map (item_of E) (filter (\<lambda>r. r_FolderPath r = path) reqs))
                          None [] [] [] None []) ps"
    using ps(3) by (simp only: i new_folder_def)
  with e ps(1,2) show ?thesis by blast
qed

theorem export_folder_per_listed_path_witness:
  "\<exists>p d'. export_document env0
        (demo_db\<lparr>requests := [sample_row ''Ping'' [], sample_row ''Login'' ''A/B'', sample_row ''Logout'' ''A/B'']\<rparr>) 1
        = (Inr p, d')
     \<and> map item_Name (slice_elems (pc_Item p)) = [''Ping'', ''A/B'']
     \<and> map (\<lambda>i. map item_Name (item_Item i)) (slice_elems (pc_Item p)) = [[], [''Login'', ''Logout'']]"
proof -
  let ?d = "demo_db\<lparr>requests := [sample_row ''Ping'' [], sample_row ''Login'' ''A/B'', sample_row ''Logout'' ''A/B'']\<rparr>"
  let ?reqs = "map scan_Request (take 1000 (filter (\<lambda>r. r_CollectionID r = 1) (requests ?d)))"
  have h1: "\<not> fault env0 (ops ?d)" by (simp add: env0_def)
  have h2: "\<not> fault env0 (Suc (ops ?d))" by (simp add: env0_def)
  have h3: "find (\<lambda>c. c_ID c = 1) (collections ?d) = Some demo_collection"
    by (simp add: demo_db_def demo_collection_def)
  have h4: "?reqs = ?reqs" by simp
  from export_folder_per_listed_path[OF h1 h2 h3 h4] obtain p d' ps where
    e: "export_document env0 ?d 1 = (Inr p, d')"
    and d: "distinct ps"
    and s: "set ps = r_FolderPath ` set ?reqs - {[]}"
    and i: "slice_elems (pc_Item p) =
          map (item_of env0) (filter (\<lambda>r. r_FolderPath r = []) ?reqs)
          @ map (\<lambda>path. PostmanItem path [] (map (item_of env0) (filter (\<lambda>r. r_FolderPath r = path) ?reqs))
                          None [] [] [] None []) ps"
    by blast
  from s have "set ps = {''A/B''}"
    by (auto simp: sample_row_def scan_Request_fields)
  from this d have "ps = [''A/B'']"
    by (rule distinct_set_singleton)
  with i have "map item_Name (slice_elems (pc_Item p)) = [''Ping'', ''A/B'']"
    "map (\<lambda>i. map item_Name (item_Item i)) (slice_elems (pc_Item p)) = [[], [''Login'', ''Logout'']]"
    by (simp_all add: sample_row_def scan_Request_fields item_of_def)
  with e show ?thesis
    by (intro exI[of _ p] exI[of _ d']) simp
qed

section \<open>Round trip\<close>

lemma tree_nodes_append: "tree_nodes anc (xs @ ys) = tree_nodes anc xs @ tree_nodes anc ys"
proof (induction xs)
  case Nil
  show ?case by simp
next
  case (Cons x xs)
  then show ?case by (cases x) simp
qed

lemma triples_under_append: "triples_under anc (xs @ ys) = triples_under anc xs @ triples_under anc ys"
  by (simp add: triples_under_def tree_nodes_append)

lemma request_leaves_append: "request_leaves anc (xs @ ys) = request_leaves anc xs @ request_leaves anc ys"
  by (simp add: request_leaves_def tree_nodes_append)

text \<open>The triple of a stored request, as the export writes it.\<close>

lemma node_triples_item_of:
  "node_triples (item_of E r) = [(r_Name r, r_Method r, url_raw (req_URL (postmanReq_of E r)))]"
  by (simp add: node_triples_def item_of_def postmanReq_of_def)

lemma triples_under_items:
  "triples_under anc (map (item_of E) rs)
     = map (\<lambda>r. (r_Name r, r_Method r, url_raw (req_URL (postmanReq_of E r)))) rs"
proof (induction rs)
  case Nil
  show ?case by (simp add: triples_under_def)
next
  case (Cons r rs)
  have "tree_nodes anc (item_of E r # map (item_of E) rs) = (anc, item_of E r) # tree_nodes anc (map (item_of E) rs)"
    by (simp add: item_of_def)
  with Cons show ?case
    by (simp add: triples_under_def node_triples_item_of)
qed

lemma triples_under_folders:
  "triples_under anc (map (\<lambda>path. new_folder path (map (item_of E) (g path))) ps)
     = concat (map (\<lambda>path. map (\<lambda>r. (r_Name r, r_Method r, url_raw (req_URL (postmanReq_of E r)))) (g path)) ps)"
proof (induction ps)
  case Nil
  show ?case by (simp add: triples_under_def)
next
  case (Cons p ps)
  have "triples_under anc (new_folder p (map (item_of E) (g p)) # map (\<lambda>path. new_folder path (map (item_of E) (g path))) ps)
      = triples_under (anc @ [p]) (map (item_of E) (g p))
        @ triples_under anc (map (\<lambda>path. new_folder path (map (item_of E) (g path))) ps)"
    by (simp add: triples_under_def new_folder_def node_triples_def)
  with Cons show ?case
    by (simp add: triples_under_items)
qed

lemma triples_of_build_items:
  "set (triples_of (slice_elems (build_items E reqs)))
     = (\<lambda>r. (r_Name r, r_Method r, url_raw (req_URL (postmanReq_of E r)))) ` set reqs"
proof -
  let ?t = "\<lambda>r. (r_Name r, r_Method r, url_raw (req_URL (postmanReq_of E r)))"
  from build_items_shape[of reqs E] obtain ps where
    s: "set ps = r_FolderPath ` set reqs - {[]}"
    and sh: "slice_elems (build_items E reqs) =
          map (item_of E) (filter (\<lambda>r. r_FolderPath r = []) reqs)
          @ map (\<lambda>path. new_folder path (map (item_of E) (filter (\<lambda>r. r_FolderPath r = path) reqs))) ps"
    by blast
  have "set (triples_of (slice_elems (build_items E reqs)))
      = ?t ` {r \<in> set reqs. r_FolderPath r = []} \<union> (\<Union>path \<in> set ps. ?t ` {r \<in> set reqs. r_FolderPath r = path})"
    unfolding sh triples_of_def triples_under_append triples_under_items triples_under_folders
    by (simp add: image_Collect)
  also have "\<dots> = ?t ` set reqs"
  proof (rule set_eqI)
    fix x
    show "x \<in> ?t ` {r \<in> set reqs. r_FolderPath r = []} \<union> (\<Union>path \<in> set ps. ?t ` {r \<in> set reqs. r_FolderPath r = path})
        \<longleftrightarrow> x \<in> ?t ` set reqs"
      unfolding s by blast
  qed
  finally show ?thesis .
qed

text \<open>The raw string of a URL survives the import, the storage and the export.\<close>

lemma map_of_rev_distinct: "distinct (map fst xs) \<Longrightarrow> map_of (rev xs) = map_of xs"
proof (induction xs)
  case Nil
  show ?case by simp
next
  case (Cons x xs)
  then have "fst x \<notin> dom (map_of xs)" by (simp add: dom_map_of_conv_image_fst)
  then have "map_of xs (fst x) = None" by blast
  with Cons show ?case
    by (auto simp: map_add_def fun_eq_iff split: option.splits)
qed

lemma raw_of_fold_update:
  "map_of (rev (fold (\<lambda>(k, v). AList.update k v) kvs [])) = map_of (rev kvs)"
proof -
  have "distinct (map fst (fold (\<lambda>(k, v). AList.update k v) kvs []))"
    by (rule fold_update_distinct) simp
  then have "map_of (rev (fold (\<lambda>(k, v). AList.update k v) kvs [])) = map_of (fold (\<lambda>(k, v). AList.update k v) kvs [])"
    by (rule map_of_rev_distinct)
  then show ?thesis by (simp add: fold_update_map_of)
qed

lemma url_raw_fold_update: "url_raw (JObj (fold (\<lambda>(k, v). AList.update k v) kvs [])) = url_raw (JObj kvs)"
  by (simp add: url_raw_def raw_of_fold_update)

lemma urlMap_of_cases:
  "urlMap_of u =
     (case u of
        JStr s \<Rightarrow> (if s = [] then Some [] else Some [(''raw'', JStr s)])
      | JObj kvs \<Rightarrow> Some (fold (\<lambda>(k, v). AList.update k v) kvs [])
      | _ \<Rightarrow> Some [])"
  by (simp add: urlMap_of_def unmarshal_JSONMap_def marshal_any_def split: json.splits)

lemma scan_of_Some: "JSONMap_Scan (jsonb_column (Some m)) = Some (fold (\<lambda>(k, v). AList.update k v) m [])"
  by (simp add: JSONMap_Scan_def jsonb_column_def unmarshal_JSONMap_def)

lemma urlMap_of_raw: "\<exists>m. urlMap_of u = Some m \<and> url_raw (JObj m) = url_raw u"
proof (cases u)
  case (JStr s)
  then show ?thesis by (cases "s = []") (simp_all add: urlMap_of_cases url_raw_def)
next
  case (JObj kvs)
  then show ?thesis by (simp add: urlMap_of_cases url_raw_fold_update)
qed (simp_all add: urlMap_of_cases url_raw_def)

lemma url_raw_roundtrip:
  assumes "r_URL r = urlMap_of u"
  shows "url_raw (req_URL (postmanReq_of E (scan_Request r))) = url_raw u"
proof -
  from urlMap_of_raw[of u] obtain m where m: "urlMap_of u = Some m" and raw: "url_raw (JObj m) = url_raw u"
    by blast
  have "req_URL (postmanReq_of E (scan_Request r)) = JObj (fold (\<lambda>(k, v). AList.update k v) m [])"
    using assms
    by (simp add: postmanReq_of_def scan_Request_def m scan_of_Some marshal_JSONMap_def unmarshal_any_def)
  with raw show ?thesis by (simp add: url_raw_fold_update)
qed

text \<open>The triple the export writes for the row of a request leaf is the triple of the leaf.\<close>

lemma exported_triple_of_leaf:
  assumes "is_request_leaf node"
  shows "node_triples node =
           [(\<lambda>r. (r_Name r, r_Method r, url_raw (req_URL (postmanReq_of E (scan_Request r)))))
              (record_of cid (a, node))]"
proof -
  from assms obtain req where req: "item_Request node = Some req"
    by (auto simp: is_request_leaf_def)
  have u: "r_URL (record_of cid (a, node)) = urlMap_of (req_URL req)"
    by (simp add: record_of_def new_Request_def req)
  have "r_Name (record_of cid (a, node)) = item_Name node"
    "r_Method (record_of cid (a, node)) = req_Method req"
    by (simp_all add: record_of_def new_Request_def req)
  with url_raw_roundtrip[OF u, of E] show ?thesis
    by (simp add: node_triples_def req)
qed

lemma concat_map_filter:
  "(\<forall>x \<in> set xs. \<not> P x \<longrightarrow> f x = []) \<Longrightarrow> concat (map f xs) = concat (map f (filter P xs))"
  by (induction xs) simp_all

lemma concat_map_singleton:
  "(\<forall>y \<in> set ys. f y = [g y]) \<Longrightarrow> concat (map f ys) = map g ys"
  by (induction ys) simp_all

text \<open>A document in which only nodes without nested items carry a request.\<close>

lemma triples_of_leaves:
  assumes "\<forall>(a, node) \<in> set (tree_nodes anc items). item_Request node \<noteq> None \<longrightarrow> item_Item node = []"
  shows "triples_under anc items =
           map (\<lambda>an. (\<lambda>r. (r_Name r, r_Method r, url_raw (req_URL (postmanReq_of E (scan_Request r)))))
                        (record_of cid an))
               (request_leaves anc items)"
proof -
  let ?f = "\<lambda>(a, node). node_triples node"
  let ?P = "\<lambda>(a, node). is_request_leaf node"
  have "\<forall>x \<in> set (tree_nodes anc items). \<not> ?P x \<longrightarrow> ?f x = []"
    using assms by (auto simp: is_request_leaf_def node_triples_def split: option.splits)
  then have "concat (map ?f (tree_nodes anc items)) = concat (map ?f (filter ?P (tree_nodes anc items)))"
    by (rule concat_map_filter)
  moreover have "\<forall>y \<in> set (filter ?P (tree_nodes anc items)).
      ?f y = [(\<lambda>an. (\<lambda>r. (r_Name r, r_Method r, url_raw (req_URL (postmanReq_of E (scan_Request r)))))
                        (record_of cid an)) y]"
    by (auto simp: exported_triple_of_leaf)
  then have "concat (map ?f (filter ?P (tree_nodes anc items)))
      = map (\<lambda>an. (\<lambda>r. (r_Name r, r_Method r, url_raw (req_URL (postmanReq_of E (scan_Request r)))))
                        (record_of cid an)) (filter ?P (tree_nodes anc items))"
    by (rule concat_map_singleton)
  ultimately show ?thesis
    by (simp add: triples_under_def request_leaves_def)
qed

lemma folder_tree_requests_on_leaves:
  assumes "list_all is_folder_tree items"
    and "(a, node) \<in> set (tree_nodes anc items)"
    and "item_Request node \<noteq> None"
  shows "item_Item node = []"
  using assms
proof (induction anc items rule: tree_nodes.induct)
  case (1 anc)
  then show ?case by simp
next
  case (2 anc name description children request response event variable auth pid nodes)
  let ?x = "PostmanItem name description children request response event variable auth pid"
  from "2.prems"(2) consider
    (here) "(a, node) = (anc, ?x)"
    | (below) "(a, node) \<in> set (tree_nodes (anc @ [name]) children)"
    | (after) "(a, node) \<in> set (tree_nodes anc nodes)"
    by auto
  then show ?case
  proof cases
    case here
    with "2.prems"(1,3) show ?thesis
      by (cases "children = []") auto
  next
    case below
    then have "children \<noteq> []" by auto
    with "2.prems"(1) have "list_all is_folder_tree children" by simp
    from "2.IH"(1)[OF this below "2.prems"(3)] show ?thesis .
  next
    case after
    from "2.prems"(1) have "list_all is_folder_tree nodes" by simp
    from "2.IH"(2)[OF this after "2.prems"(3)] show ?thesis .
  qed
qed

lemma stamp_ids_map:
  assumes "\<And>r n. f (r\<lparr>r_ID := n\<rparr>) = f r"
  shows "map f (stamp_ids n rs) = map f rs"
  by (induction rs arbitrary: n) (simp_all add: assms)

lemma stamp_ids_triples:
  "map (\<lambda>r. (r_Name r, r_Method r, url_raw (req_URL (postmanReq_of E (scan_Request r))))) (stamp_ids n rs)
   = map (\<lambda>r. (r_Name r, r_Method r, url_raw (req_URL (postmanReq_of E (scan_Request r))))) rs"
  by (rule stamp_ids_map) (simp add: scan_Request_def postmanReq_of_def split: option.splits)

text \<open>The import, when the storage accepts every row.\<close>

lemma import_ok:
  assumes "Unmarshal_PostmanCollection E bytes = Inr p" "info_Name (pc_Info p) \<noteq> []"
    and "rows = map (record_of (next_collection_id d)) (request_leaves [] (slice_elems (pc_Item p)))"
    and "\<forall>k \<le> length rows. \<not> fault E (ops d + k)"
  shows "\<exists>d1. ImportPostmanCollection E d bytes = (Inr (next_collection_id d), d1)
       \<and> collections d1 = (new_Collection p)\<lparr>c_ID := next_collection_id d\<rparr> # collections d
       \<and> requests d1 = rev (stamp_ids (next_request_id d) rows) @ requests d
       \<and> ops d1 = ops d + 1 + length rows"
proof -
  from assms(4) have nf: "\<not> fault E (ops d)" by force
  from import_after_create[OF assms(1,2) nf] obtain d0 where
    i: "ImportPostmanCollection E d bytes =
           (case persist_all E rows d0 of
              (Some err, d2) \<Rightarrow> (Inl err, d2)
            | (None, d2) \<Rightarrow> (Inr (next_collection_id d), d2))"
    and d0: "collections d0 = (new_Collection p)\<lparr>c_ID := next_collection_id d\<rparr> # collections d"
      "requests d0 = requests d" "next_request_id d0 = next_request_id d" "ops d0 = Suc (ops d)"
    using assms(3) by blast
  have "\<forall>k < length rows. \<not> fault E (ops d0 + k)"
  proof (intro allI impI)
    fix k assume "k < length rows"
    then have "Suc k \<le> length rows" by simp
    with assms(4) have "\<not> fault E (ops d + Suc k)" by blast
    then show "\<not> fault E (ops d0 + k)" by (simp add: d0(4))
  qed
  from persist_all_ok[OF this] obtain d1 where
    "persist_all E rows d0 = (None, d1)"
    "requests d1 = rev (stamp_ids (next_request_id d0) rows) @ requests d0"
    "collections d1 = collections d0" "ops d1 = ops d0 + length rows"
    by blast
  with i d0 show ?thesis by simp
qed

text \<open>The rows of a collection just imported, and their listing when they are a thousand at most.\<close>

lemma filter_after_import:
  assumes "requests d1 = rev (stamp_ids n rows) @ requests d"
    and "\<forall>r \<in> set rows. r_CollectionID r = ident"
    and "\<forall>r \<in> set (requests d). r_CollectionID r \<noteq> ident"
  shows "filter (\<lambda>r. r_CollectionID r = ident) (requests d1) = rev (stamp_ids n rows)"
proof -
  have "set (map r_CollectionID (stamp_ids n rows)) = set (map r_CollectionID rows)"
    by (simp only: stamp_ids_CollectionID)
  with assms(2) have a: "\<forall>r \<in> set (stamp_ids n rows). r_CollectionID r = ident"
    by (metis (no_types, lifting) image_iff list.set_map)
  from assms(3) have b: "filter (\<lambda>r. r_CollectionID r = ident) (requests d) = []"
    by (simp add: filter_empty_conv)
  from a have "filter (\<lambda>r. r_CollectionID r = ident) (rev (stamp_ids n rows)) = rev (stamp_ids n rows)"
    by (simp add: filter_id_conv)
  with b assms(1) show ?thesis by simp
qed

lemma listing_after_import:
  assumes "requests d1 = rev (stamp_ids n rows) @ requests d"
    and "\<forall>r \<in> set rows. r_CollectionID r = ident"
    and "\<forall>r \<in> set (requests d). r_CollectionID r \<noteq> ident"
    and "length rows \<le> 1000"
  shows "take 1000 (filter (\<lambda>r. r_CollectionID r = ident) (requests d1)) = rev (stamp_ids n rows)"
  using filter_after_import[OF assms(1,2,3)] assms(4) by (simp add: length_stamp_ids)

lemma roundtrip_on_leaves:
  assumes "Unmarshal_PostmanCollection E bytes = Inr doc" "info_Name (pc_Info doc) \<noteq> []"
    and "\<forall>(a, node) \<in> set (tree_nodes [] (slice_elems (pc_Item doc))).
           item_Request node \<noteq> None \<longrightarrow> item_Item node = []"
    and "length (request_leaves [] (slice_elems (pc_Item doc))) \<le> 1000"
    and "\<forall>k \<le> length (request_leaves [] (slice_elems (pc_Item doc))) + 2. \<not> fault E (ops d + k)"
    and "\<forall>r \<in> set (requests d). r_CollectionID r \<noteq> next_collection_id d"
  shows "\<exists>ident d1 p d2. ImportPostmanCollection E d bytes = (Inr ident, d1)
      \<and> export_document E d1 ident = (Inr p, d2)
      \<and> set (triples_of (slice_elems (pc_Item p))) = set (triples_of (slice_elems (pc_Item doc)))"
proof -
  let ?items = "slice_elems (pc_Item doc)"
  let ?ident = "next_collection_id d"
  let ?rows = "map (record_of ?ident) (request_leaves [] ?items)"
  let ?t = "\<lambda>r. (r_Name r, r_Method r, url_raw (req_URL (postmanReq_of E (scan_Request r))))"
  have nf: "\<forall>k \<le> length ?rows. \<not> fault E (ops d + k)"
    using assms(5) by simp
  from import_ok[OF assms(1,2) refl nf] obtain d1 where
    i: "ImportPostmanCollection E d bytes = (Inr ?ident, d1)"
    and c: "collections d1 = (new_Collection doc)\<lparr>c_ID := ?ident\<rparr> # collections d"
    and r: "requests d1 = rev (stamp_ids (next_request_id d) ?rows) @ requests d"
    and o: "ops d1 = ops d + 1 + length ?rows"
    by blast
  have f1: "\<not> fault E (ops d1)"
    using assms(5)[rule_format, of "length ?rows + 1"] o by simp
  have f2: "\<not> fault E (Suc (ops d1))"
    using assms(5)[rule_format, of "length ?rows + 2"] o by simp
  have fd: "find (\<lambda>c. c_ID c = ?ident) (collections d1) = Some ((new_Collection doc)\<lparr>c_ID := ?ident\<rparr>)"
    by (simp add: c)
  have cid: "\<forall>r \<in> set ?rows. r_CollectionID r = ?ident"
    by (simp add: record_of_CollectionID)
  have len: "length ?rows \<le> 1000" using assms(4) by simp
  have l: "take 1000 (filter (\<lambda>r. r_CollectionID r = ?ident) (requests d1)) = rev (stamp_ids (next_request_id d) ?rows)"
    by (rule listing_after_import[OF r cid assms(6) len])
  let ?reqs = "map scan_Request (rev (stamp_ids (next_request_id d) ?rows))"
  let ?p = "with_metadata E (scan_Collection ((new_Collection doc)\<lparr>c_ID := ?ident\<rparr>))
              ((new_PostmanCollection (scan_Collection ((new_Collection doc)\<lparr>c_ID := ?ident\<rparr>)))
                 \<lparr>pc_Item := build_items E ?reqs\<rparr>)"
  have e: "export_document E d1 ?ident = (Inr ?p, tick (tick d1))"
    using export_document_ok[OF f1 f2 fd] by (simp only: l)
  have "set (triples_of (slice_elems (pc_Item ?p))) = set (triples_of (slice_elems (build_items E ?reqs)))"
    by (simp add: with_metadata_Item)
  also have "\<dots> = (\<lambda>r. (r_Name r, r_Method r, url_raw (req_URL (postmanReq_of E r)))) ` set ?reqs"
    by (rule triples_of_build_items)
  also have "\<dots> = set (map ?t (stamp_ids (next_request_id d) ?rows))"
    by (simp add: image_image scan_Request_fields)
  also have "\<dots> = set (map ?t ?rows)"
    by (simp only: stamp_ids_triples)
  also have "\<dots> = set (triples_of ?items)"
    unfolding triples_of_def triples_of_leaves[OF assms(3), where E = E and cid = "?ident"]
    by (simp add: comp_def)
  finally have "set (triples_of (slice_elems (pc_Item ?p))) = set (triples_of ?items)" .
  with i e show ?thesis by blast
qed

lemma request_leaves_three_level:
  "request_leaves [] three_level_items =
     [([''Auth'', ''Login''], sample_leaf ''Submit'' ''POST'' (JStr ''https://example.com/login'')),
      ([''Auth'', ''Login''], sample_leaf ''Cancel'' ''GET'' (JObj [(''raw'', JStr ''https://example.com/cancel''), (''host'', JArr [JStr ''example'', JStr ''com''])])),
      ([], sample_leaf ''Ping'' ''GET'' (JStr ''https://example.com/a''))]"
  by (simp add: request_leaves_def three_level_items_def new_folder_def sample_leaf_def is_request_leaf_def)

lemma fixture_shape_three_level_items: "fixture_shape three_level_items"
  by (simp add: fixture_shape_def three_level_items_def new_folder_def sample_leaf_def
      is_request_leaf_def holds_two_requests_def)

lemma triples_of_three_level_items:
  "triples_of three_level_items =
     [(''Submit'', ''POST'', ''https://example.com/login''),
      (''Cancel'', ''GET'', ''https://example.com/cancel''),
      (''Ping'', ''GET'', ''https://example.com/a'')]"
  by (simp add: triples_of_def triples_under_def three_level_items_def new_folder_def sample_leaf_def
      sample_request_def node_triples_def url_raw_def)

subsection \<open>The document of 1001 requests\<close>

lemma request_leaves_folder_of_pings:
  "request_leaves [] [new_folder ''F'' [ping, ping]] = [([''F''], ping), ([''F''], ping)]"
  by (simp add: request_leaves_def new_folder_def ping_def sample_leaf_def is_request_leaf_def)

lemma request_leaves_replicate:
  "request_leaves [] (replicate n (new_folder ''F'' [ping, ping]))
     = concat (replicate n [([''F''], ping), ([''F''], ping)])"
proof (induction n)
  case 0
  show ?case by (simp add: request_leaves_def)
next
  case (Suc n)
  have "replicate (Suc n) (new_folder ''F'' [ping, ping])
      = [new_folder ''F'' [ping, ping]] @ replicate n (new_folder ''F'' [ping, ping])"
    by simp
  then have "request_leaves [] (replicate (Suc n) (new_folder ''F'' [ping, ping]))
      = request_leaves [] [new_folder ''F'' [ping, ping]]
        @ request_leaves [] (replicate n (new_folder ''F'' [ping, ping]))"
    by (simp only: request_leaves_append)
  with Suc show ?case
    by (simp add: request_leaves_folder_of_pings)
qed

lemma length_concat_replicate_pair: "length (concat (replicate n [x, y])) = 2 * n"
  by (induction n) simp_all

lemma set_concat_replicate: "set (concat (replicate n xs)) \<subseteq> set xs"
  by (induction n) auto

lemma crowded_items_split:
  "crowded_items =
     [new_folder ''Auth'' [new_folder ''Login'' [first_request, ping]]]
     @ (replicate 499 (new_folder ''F'' [ping, ping]) @ [ping])"
  by (simp add: crowded_items_def)

lemma request_leaves_crowded:
  "request_leaves [] crowded_items =
     ([''Auth'', ''Login''], first_request)
     # (([''Auth'', ''Login''], ping) # concat (replicate 499 [([''F''], ping), ([''F''], ping)]) @ [([], ping)])"
proof -
  have "request_leaves [] crowded_items =
     request_leaves [] [new_folder ''Auth'' [new_folder ''Login'' [first_request, ping]]]
     @ request_leaves [] (replicate 499 (new_folder ''F'' [ping, ping])) @ request_leaves [] [ping]"
    by (subst crowded_items_split) (simp only: request_leaves_append)
  moreover have "request_leaves [] [new_folder ''Auth'' [new_folder ''Login'' [first_request, ping]]]
     = [([''Auth'', ''Login''], first_request), ([''Auth'', ''Login''], ping)]"
    by (simp add: request_leaves_def new_folder_def ping_def first_request_def sample_leaf_def is_request_leaf_def)
  moreover have "request_leaves [] [ping] = [([], ping)]"
    by (simp add: request_leaves_def ping_def sample_leaf_def is_request_leaf_def)
  ultimately show ?thesis
    by (simp add: request_leaves_replicate)
qed

lemma fixture_shape_crowded_items: "fixture_shape crowded_items"
proof -
  have l: "is_request_leaf ping" "is_request_leaf first_request"
    by (simp_all add: ping_def first_request_def sample_leaf_def is_request_leaf_def)
  have t: "is_folder_tree ping" "is_folder_tree (new_folder ''F'' [ping, ping])"
    "is_folder_tree (new_folder ''Auth'' [new_folder ''Login'' [first_request, ping]])"
    by (simp_all add: ping_def first_request_def sample_leaf_def new_folder_def)
  have "set crowded_items \<subseteq>
      {new_folder ''Auth'' [new_folder ''Login'' [first_request, ping]], new_folder ''F'' [ping, ping], ping}"
    by (auto simp: crowded_items_def)
  with t have a: "list_all is_folder_tree crowded_items"
    unfolding list_all_iff by blast
  have "tree_nodes [] crowded_items =
      tree_nodes [] [new_folder ''Auth'' [new_folder ''Login'' [first_request, ping]]]
      @ tree_nodes [] (replicate 499 (new_folder ''F'' [ping, ping]) @ [ping])"
    by (subst crowded_items_split) (rule tree_nodes_append)
  moreover have "([''Auth''], new_folder ''Login'' [first_request, ping])
      \<in> set (tree_nodes [] [new_folder ''Auth'' [new_folder ''Login'' [first_request, ping]]])"
    by (simp add: new_folder_def)
  ultimately have "([''Auth''], new_folder ''Login'' [first_request, ping]) \<in> set (tree_nodes [] crowded_items)"
    by simp
  moreover have "holds_two_requests (new_folder ''Login'' [first_request, ping])"
    using l by (simp add: holds_two_requests_def new_folder_def)
  ultimately have b: "list_ex (\<lambda>(a, node). holds_two_requests node) (tree_nodes [] crowded_items)"
    unfolding list_ex_iff by blast
  have "ping \<in> set crowded_items" by (simp add: crowded_items_def)
  with l have "list_ex is_request_leaf crowded_items"
    unfolding list_ex_iff by blast
  with a b show ?thesis by (simp add: fixture_shape_def)
qed

lemma first_in_triples_of_crowded:
  "(''First'', ''GET'', ''https://example.com/a'') \<in> set (triples_of crowded_items)"
proof -
  have "triples_of crowded_items =
     triples_under [] [new_folder ''Auth'' [new_folder ''Login'' [first_request, ping]]]
     @ triples_under [] (replicate 499 (new_folder ''F'' [ping, ping]) @ [ping])"
    unfolding triples_of_def by (subst crowded_items_split) (rule triples_under_append)
  moreover have "(''First'', ''GET'', ''https://example.com/a'')
     \<in> set (triples_under [] [new_folder ''Auth'' [new_folder ''Login'' [first_request, ping]]])"
    by (simp add: triples_under_def new_folder_def first_request_def sample_leaf_def sample_request_def ping_def
        node_triples_def url_raw_def)
  ultimately show ?thesis by simp
qed

text \<open>
  Claim C2 fails on the code. The export is to load all the request records of the
  collection; it asks the storage for the thousand newest only (offset 0, limit 1000) and
  gives no sign of the rest. The document \<open>crowded_items\<close> has the shape of the fixture (a
  folder in a folder with two requests, folders of two requests, a request at the root)
  and 1001 requests. Its import into the empty database succeeds, the export of the new
  collection succeeds, and the exported document has no request named \<^verbatim>\<open>First\<close>, which the
  document has: the two sets of (name, method, raw URL) triples differ.
\<close>

theorem roundtrip_loses_request_beyond_listing:
  "fixture_shape crowded_items
   \<and> length (triples_of crowded_items) = 1001
   \<and> (\<exists>ident d1 p d2.
         ImportPostmanCollection (env_decoding (sample_doc crowded_items)) db0 ''{}'' = (Inr ident, d1)
       \<and> export_document (env_decoding (sample_doc crowded_items)) d1 ident = (Inr p, d2)
       \<and> (''First'', ''GET'', ''https://example.com/a'') \<in> set (triples_of crowded_items)
       \<and> (''First'', ''GET'', ''https://example.com/a'') \<notin> set (triples_of (slice_elems (pc_Item p)))
       \<and> set (triples_of (slice_elems (pc_Item p))) \<noteq> set (triples_of crowded_items))"
proof -
  let ?E = "env_decoding (sample_doc crowded_items)"
  let ?l0 = "([''Auth'', ''Login''], first_request)"
  let ?rest = "([''Auth'', ''Login''], ping) # concat (replicate 499 [([''F''], ping), ([''F''], ping)]) @ [([], ping)]"
  let ?rows = "map (record_of (next_collection_id db0)) (request_leaves [] (slice_elems (pc_Item (sample_doc crowded_items))))"
  let ?rrest = "map (record_of 1) ?rest"
  have items: "slice_elems (pc_Item (sample_doc crowded_items)) = crowded_items"
    by (simp add: sample_doc_def slice_elems_def)
  have rows: "?rows = record_of 1 ?l0 # ?rrest"
    unfolding items request_leaves_crowded by (simp add: db0_def)
  have len: "length ?rrest = 1000"
    by (simp add: length_concat_replicate_pair)
  have shape: "\<forall>(a, node) \<in> set (tree_nodes [] crowded_items). item_Request node \<noteq> None \<longrightarrow> item_Item node = []"
    using fixture_shape_crowded_items by (auto simp: fixture_shape_def dest: folder_tree_requests_on_leaves)
  have "length (triples_of crowded_items) = length (request_leaves [] crowded_items)"
    unfolding triples_of_def triples_of_leaves[OF shape, where E = ?E and cid = 1] by simp
  then have count: "length (triples_of crowded_items) = 1001"
    unfolding request_leaves_crowded by (simp add: length_concat_replicate_pair)
  have names: "set (map r_Name ?rrest) \<subseteq> {''Ping''}"
  proof -
    have "set ?rest \<subseteq> {([''Auth'', ''Login''], ping), ([''F''], ping), ([], ping)}"
      using set_concat_replicate[of 499 "[([''F''], ping), ([''F''], ping)]"] by auto
    then have "\<forall>an \<in> set ?rest. item_Name (snd an) = ''Ping''"
      by (auto simp: ping_def sample_leaf_def)
    then show ?thesis
      by (auto simp: record_of_Name simp del: set_concat)
  qed
  have h1: "Unmarshal_PostmanCollection ?E ''{}'' = Inr (sample_doc crowded_items)"
    by (simp add: env_decoding_def)
  have h2: "info_Name (pc_Info (sample_doc crowded_items)) \<noteq> []"
    by (simp add: sample_doc_def)
  have h4: "\<forall>k \<le> length ?rows. \<not> fault ?E (ops db0 + k)"
    by (simp add: env_decoding_def env0_def)
  from import_ok[OF h1 h2 refl h4] obtain d1 where
    i: "ImportPostmanCollection ?E db0 ''{}'' = (Inr (next_collection_id db0), d1)"
    and c: "collections d1 = (new_Collection (sample_doc crowded_items))\<lparr>c_ID := next_collection_id db0\<rparr> # collections db0"
    and r: "requests d1 = rev (stamp_ids (next_request_id db0) ?rows) @ requests db0"
    by blast
  have f1: "\<not> fault ?E (ops d1)" "\<not> fault ?E (Suc (ops d1))"
    by (simp_all add: env_decoding_def env0_def)
  have fd: "find (\<lambda>c. c_ID c = next_collection_id db0) (collections d1)
          = Some ((new_Collection (sample_doc crowded_items))\<lparr>c_ID := next_collection_id db0\<rparr>)"
    by (simp add: c)
  have cid: "\<forall>r \<in> set ?rows. r_CollectionID r = next_collection_id db0"
    by (simp add: record_of_CollectionID)
  have old: "\<forall>r \<in> set (requests db0). r_CollectionID r \<noteq> next_collection_id db0"
    by (simp add: db0_def)
  have "filter (\<lambda>r. r_CollectionID r = next_collection_id db0) (requests d1)
          = rev (stamp_ids (next_request_id db0) ?rows)"
    by (rule filter_after_import[OF r cid old])
  also have "\<dots> = rev (stamp_ids (next_request_id db0 + 1) ?rrest) @ [(record_of 1 ?l0)\<lparr>r_ID := next_request_id db0\<rparr>]"
    unfolding rows by simp
  finally have "take 1000 (filter (\<lambda>r. r_CollectionID r = next_collection_id db0) (requests d1))
          = rev (stamp_ids (next_request_id db0 + 1) ?rrest)"
    using len by (simp add: length_stamp_ids)
  then have l: "map scan_Request (take 1000 (filter (\<lambda>r. r_CollectionID r = next_collection_id db0) (requests d1)))
          = map scan_Request (rev (stamp_ids (next_request_id db0 + 1) ?rrest))"
    by (simp only:)
  let ?reqs = "map scan_Request (rev (stamp_ids (next_request_id db0 + 1) ?rrest))"
  let ?p = "with_metadata ?E (scan_Collection ((new_Collection (sample_doc crowded_items))\<lparr>c_ID := next_collection_id db0\<rparr>))
              ((new_PostmanCollection (scan_Collection ((new_Collection (sample_doc crowded_items))\<lparr>c_ID := next_collection_id db0\<rparr>)))
                 \<lparr>pc_Item := build_items ?E ?reqs\<rparr>)"
  have e: "export_document ?E d1 (next_collection_id db0) = (Inr ?p, tick (tick d1))"
    using export_document_ok[OF f1 fd] by (simp only: l)
  have t: "set (triples_of (slice_elems (pc_Item ?p)))
         = (\<lambda>r. (r_Name r, r_Method r, url_raw (req_URL (postmanReq_of ?E r)))) ` set ?reqs"
    unfolding with_metadata_Item by (simp add: triples_of_build_items)
  have "r_Name ` set ?reqs = set (map r_Name (stamp_ids (next_request_id db0 + 1) ?rrest))"
    by (simp add: image_image scan_Request_fields)
  also have "\<dots> = set (map r_Name ?rrest)"
    by (simp only: stamp_ids_Name)
  finally have "r_Name ` set ?reqs \<subseteq> {''Ping''}"
    using names by simp
  then have "\<forall>r \<in> set ?reqs. r_Name r = ''Ping''" by blast
  then have notin: "(''First'', ''GET'', ''https://example.com/a'') \<notin> set (triples_of (slice_elems (pc_Item ?p)))"
    unfolding t by auto
  with first_in_triples_of_crowded
  have "set (triples_of (slice_elems (pc_Item ?p))) \<noteq> set (triples_of crowded_items)"
    by blast
  with i e notin first_in_triples_of_crowded fixture_shape_crowded_items count show ?thesis
    by blast
qed

text \<open>
  Up to a thousand requests the round trip keeps the requests. For every document of the
  shape of the fixture, of any depth, with a thousand requests at most, when the storage
  accepts every call of the import and of the export and has no request row under the
  identity the new collection gets, the export of the collection that the import of the
  document makes has the same set of (request name, method, raw URL) triples as the
  document. The order of the items may differ.
\<close>

theorem roundtrip_keeps_request_triples:
  assumes "Unmarshal_PostmanCollection E bytes = Inr doc" "info_Name (pc_Info doc) \<noteq> []"
    and "fixture_shape (slice_elems (pc_Item doc))"
    and "length (request_leaves [] (slice_elems (pc_Item doc))) \<le> 1000"
    and "\<forall>k \<le> length (request_leaves [] (slice_elems (pc_Item doc))) + 2. \<not> fault E (ops d + k)"
    and "\<forall>r \<in> set (requests d). r_CollectionID r \<noteq> next_collection_id d"
  shows "\<exists>ident d1 p d2. ImportPostmanCollection E d bytes = (Inr ident, d1)
      \<and> export_document E d1 ident = (Inr p, d2)
      \<and> set (triples_of (slice_elems (pc_Item p))) = set (triples_of (slice_elems (pc_Item doc)))"
proof -
  from assms(3) have "list_all is_folder_tree (slice_elems (pc_Item doc))"
    by (simp add: fixture_shape_def)
  then have "\<forall>(a, node) \<in> set (tree_nodes [] (slice_elems (pc_Item doc))).
           item_Request node \<noteq> None \<longrightarrow> item_Item node = []"
    by (auto dest: folder_tree_requests_on_leaves)
  from roundtrip_on_leaves[OF assms(1,2) this assms(4,5,6)] show ?thesis .
qed

theorem roundtrip_keeps_request_triples_witness:
  "\<exists>ident d1 p d2. ImportPostmanCollection (env_decoding (sample_doc three_level_items)) db0 ''{}'' = (Inr ident, d1)
      \<and> export_document (env_decoding (sample_doc three_level_items)) d1 ident = (Inr p, d2)
      \<and> set (triples_of (slice_elems (pc_Item p))) =
          {(''Submit'', ''POST'', ''https://example.com/login''),
           (''Cancel'', ''GET'', ''https://example.com/cancel''),
           (''Ping'', ''GET'', ''https://example.com/a'')}"
proof -
  let ?E = "env_decoding (sample_doc three_level_items)"
  have items: "slice_elems (pc_Item (sample_doc three_level_items)) = three_level_items"
    by (simp add: sample_doc_def slice_elems_def)
  have h1: "Unmarshal_PostmanCollection ?E ''{}'' = Inr (sample_doc three_level_items)"
    by (simp add: env_decoding_def)
  have h2: "info_Name (pc_Info (sample_doc three_level_items)) \<noteq> []"
    by (simp add: sample_doc_def)
  have h3: "fixture_shape (slice_elems (pc_Item (sample_doc three_level_items)))"
    by (simp only: items fixture_shape_three_level_items)
  have h4: "length (request_leaves [] (slice_elems (pc_Item (sample_doc three_level_items)))) \<le> 1000"
    by (simp add: items request_leaves_three_level)
  have h5: "\<forall>k \<le> length (request_leaves [] (slice_elems (pc_Item (sample_doc three_level_items)))) + 2.
              \<not> fault ?E (ops db0 + k)"
    by (simp add: env_decoding_def env0_def)
  have h6: "\<forall>r \<in> set (requests db0). r_CollectionID r \<noteq> next_collection_id db0"
    by (simp add: db0_def)
  from roundtrip_keeps_request_triples[OF h1 h2 h3 h4 h5 h6] obtain ident d1 p d2 where
    a: "ImportPostmanCollection ?E db0 ''{}'' = (Inr ident, d1)"
    and b: "export_document ?E d1 ident = (Inr p, d2)"
    and c: "set (triples_of (slice_elems (pc_Item p))) = set (triples_of (slice_elems (pc_Item (sample_doc three_level_items))))"
    by blast
  from c have "set (triples_of (slice_elems (pc_Item p))) =
          {(''Submit'', ''POST'', ''https://example.com/login''),
           (''Cancel'', ''GET'', ''https://example.com/cancel''),
           (''Ping'', ''GET'', ''https://example.com/a'')}"
    by (simp add: items triples_of_three_level_items)
  with a b show ?thesis
    by (intro exI[of _ ident] exI[of _ d1] exI[of _ p] exI[of _ d2]) simp
qed

end
